theory Spec2Isabelle
  imports Complex_Main
begin

section \<open>Data model of font.c\<close>

text \<open>
  \<^verbatim>\<open>glFontChar\<close> holds the advance of one glyph; \<^verbatim>\<open>glFont\<close> holds the nominal
  height \<^verbatim>\<open>h\<close>, the handles of the atlas texture and of the vertex buffer, and the
  pointer \<^verbatim>\<open>chars\<close> to a heap block of 128 entries.
  The source indexes that pointer with \<^verbatim>\<open>(int)text[i]\<close> and never checks the index, so
  the field is modelled as the memory seen through the pointer: a total function on C
  indices whose entries 0..127 are the glyph table and whose other entries are whatever
  the process holds around the block.

  C \<^verbatim>\<open>int\<close> values are modelled as unbounded integers: signed overflow is undefined
  in C, so the model describes the code as long as the sums stay inside the range of
  \<^verbatim>\<open>int\<close>.
\<close>

record glFontChar =
  adv_x :: int
  adv_y :: int

record glFont =
  h :: int
  chars :: "int \<Rightarrow> glFontChar"
  texture :: nat
  vbo :: nat

text \<open>
  A C string is the list of its bytes; reading at the index just after the list yields
  the terminator. A NUL byte inside the list ends the string there, as it does in C.
\<close>

abbreviation NUL :: char where "NUL \<equiv> CHR 0x00"
abbreviation TAB :: char where "TAB \<equiv> CHR 0x09"
abbreviation NL :: char where "NL \<equiv> CHR 0x0A"
abbreviation ESC :: char where "ESC \<equiv> CHR 0x1B"
abbreviation SPC :: char where "SPC \<equiv> CHR 0x20"

definition text_at :: "string \<Rightarrow> nat \<Rightarrow> char" where
  "text_at text i = (if i < length text then text ! i else NUL)"

definition strlen :: "string \<Rightarrow> nat" where
  "strlen text = length (takeWhile (\<lambda>c. c \<noteq> NUL) text)"

text \<open>
  \<^verbatim>\<open>(int)text[i]\<close> with \<^verbatim>\<open>char\<close> signed, as on the x86 targets of the
  program: bytes 128..255 become the indices -128..-1.
\<close>

definition char_index :: "char \<Rightarrow> int" where
  "char_index c = (let v = of_char c in if v < 128 then v else v - 256)"

definition char_adv :: "glFont \<Rightarrow> char \<Rightarrow> int" where
  "char_adv ft_font c = adv_x (chars ft_font (char_index c))"

section \<open>font_limitSize\<close>

text \<open>
  The \<^verbatim>\<open>for\<close> loop of \<^verbatim>\<open>font_limitSize\<close>, started at \<^verbatim>\<open>i = 0, n = 0\<close>; the
  result is the pair of \<^verbatim>\<open>i\<close> and \<^verbatim>\<open>n\<close> at the loop's exit.
\<close>

function limit_loop :: "glFont \<Rightarrow> string \<Rightarrow> int \<Rightarrow> nat \<Rightarrow> int \<Rightarrow> nat \<times> int" where
  "limit_loop ft_font text mx i n =
     (if text_at text i = NUL then (i, n)
      else
        let n' = n + char_adv ft_font (text_at text i) in
        if n' > mx then (i, n' - char_adv ft_font (text_at text i))
        else limit_loop ft_font text mx (i + 1) n')"
  by pat_completeness auto
termination
  by (relation "measure (\<lambda>(ft_font, text, mx, i, n). length text - i)")
     (auto simp: text_at_def split: if_splits)

declare limit_loop.simps [simp del]

text \<open>
  \<^verbatim>\<open>text\<close> is \<open>None\<close> for the NULL pointer. \<^verbatim>\<open>width\<close> is the out-parameter:
  \<open>None\<close> for NULL, otherwise the content of the pointed-to \<^verbatim>\<open>int\<close>; the second
  component of the result is its content after the call.
\<close>

definition font_limitSize ::
  "glFont \<Rightarrow> int option \<Rightarrow> string option \<Rightarrow> int \<Rightarrow> nat \<times> int option" where
  "font_limitSize ft_font width text mx =
     (case text of
        None \<Rightarrow> (0, width)
      | Some t \<Rightarrow>
          (case limit_loop ft_font t mx 0 0 of
             (i, n) \<Rightarrow> (i, (case width of None \<Rightarrow> None | Some _ \<Rightarrow> Some n))))"

section \<open>gl_printWidthForText\<close>

text \<open>
  The \<^verbatim>\<open>while\<close> loop of \<^verbatim>\<open>gl_printWidthForText\<close> over the loop variables
  \<^verbatim>\<open>i\<close>, \<^verbatim>\<open>n\<close> and \<^verbatim>\<open>lastspace\<close>. A \<^verbatim>\<open>continue\<close> of a \<^verbatim>\<open>while\<close> loop goes
  back to the loop condition.
\<close>

function wrap_loop :: "glFont \<Rightarrow> string \<Rightarrow> int \<Rightarrow> nat \<Rightarrow> int \<Rightarrow> nat \<Rightarrow> nat" where
  "wrap_loop ft_font text width i n lastspace =
     (if text_at text i \<noteq> NL \<and> text_at text i \<noteq> NUL then
        (if text_at text i = TAB then wrap_loop ft_font text width (i + 1) n lastspace
         else if text_at text i = ESC then
           (if text_at text (i + 1) \<noteq> NUL then wrap_loop ft_font text width (i + 2) n lastspace
            else wrap_loop ft_font text width (i + 1) n lastspace)
         else
           let n' = n + char_adv ft_font (text_at text i);
               lastspace' = (if text_at text i = SPC then i else lastspace)
           in if n' > width then lastspace'
              else wrap_loop ft_font text width (i + 1) n' lastspace')
      else i)"
  by pat_completeness auto
termination
  by (relation "measure (\<lambda>(ft_font, text, width, i, n, lastspace). length text - i)")
     (auto simp: text_at_def split: if_splits)

declare wrap_loop.simps [simp del]

text \<open>
  A font argument is \<open>None\<close> for the NULL pointer, which selects the global
  \<^verbatim>\<open>gl_defFont\<close>; the global is the first argument of every function that reads it.
\<close>

definition font_or_default :: "glFont \<Rightarrow> glFont option \<Rightarrow> glFont" where
  "font_or_default gl_defFont ft_font = (case ft_font of None \<Rightarrow> gl_defFont | Some f \<Rightarrow> f)"

definition gl_printWidthForText :: "glFont \<Rightarrow> glFont option \<Rightarrow> string \<Rightarrow> int \<Rightarrow> nat" where
  "gl_printWidthForText gl_defFont ft_font text width =
     wrap_loop (font_or_default gl_defFont ft_font) text width 0 0 0"

section \<open>gl_printWidthRaw\<close>

text \<open>
  The \<^verbatim>\<open>for\<close> loop of \<^verbatim>\<open>gl_printWidthRaw\<close>. A \<^verbatim>\<open>continue\<close> of a \<^verbatim>\<open>for\<close> loop
  runs the loop's increment \<^verbatim>\<open>i++\<close> before the condition is tested again, so the
  escape branch moves \<^verbatim>\<open>i\<close> by \<^verbatim>\<open>2 + 1\<close> (or \<^verbatim>\<open>1 + 1\<close>).
\<close>

function width_loop :: "glFont \<Rightarrow> string \<Rightarrow> nat \<Rightarrow> int \<Rightarrow> int" where
  "width_loop ft_font text i n =
     (if i < strlen text then
        (if text_at text i = ESC then
           (if text_at text (i + 1) \<noteq> NUL then width_loop ft_font text (i + 2 + 1) n
            else width_loop ft_font text (i + 1 + 1) n)
         else width_loop ft_font text (i + 1) (n + char_adv ft_font (text_at text i)))
      else n)"
  by pat_completeness auto
termination
  by (relation "measure (\<lambda>(ft_font, text, i, n). strlen text - i)") auto

declare width_loop.simps [simp del]

definition gl_printWidthRaw :: "glFont \<Rightarrow> glFont option \<Rightarrow> string \<Rightarrow> int" where
  "gl_printWidthRaw gl_defFont ft_font text =
     width_loop (font_or_default gl_defFont ft_font) text 0 0"

section \<open>gl_printHeightRaw\<close>

text \<open>
  \<^verbatim>\<open>y\<close> is a \<^verbatim>\<open>double\<close>. Every value it takes is a multiple of one half, which a
  double holds exactly up to 2^52, so it is modelled by exact rationals. The cast
  \<^verbatim>\<open>(int)\<close> of a double truncates towards zero.
\<close>

definition c_trunc :: "rat \<Rightarrow> int" where
  "c_trunc x = (if 0 \<le> x then \<lfloor>x\<rfloor> else \<lceil>x\<rceil>)"

text \<open>
  The \<^verbatim>\<open>do ... while\<close> loop over \<^verbatim>\<open>p\<close> and \<^verbatim>\<open>y\<close>; \<^verbatim>\<open>&text[p]\<close> is the text
  without its first \<^verbatim>\<open>p\<close> bytes. The result is \<^verbatim>\<open>y\<close> at the loop's exit.
\<close>

function height_loop :: "glFont \<Rightarrow> glFont \<Rightarrow> string \<Rightarrow> int \<Rightarrow> nat \<Rightarrow> rat \<Rightarrow> rat" where
  "height_loop gl_defFont ft_font text width p y =
     (let i = gl_printWidthForText gl_defFont (Some ft_font) (drop p text) width;
          p' = p + (i + 1);
          y' = y + 1.5 * of_int (h ft_font)
      in if text_at text (p' - 1) \<noteq> NUL
         then height_loop gl_defFont ft_font text width p' y'
         else y')"
  by pat_completeness auto
termination
  by (relation "measure (\<lambda>(gl_defFont, ft_font, text, width, p, y). Suc (length text) - p)")
     (auto simp: text_at_def split: if_splits)

declare height_loop.simps [simp del]

definition gl_printHeightRaw :: "glFont \<Rightarrow> glFont option \<Rightarrow> int \<Rightarrow> string \<Rightarrow> int" where
  "gl_printHeightRaw gl_defFont ft_font width text =
     (let ft = font_or_default gl_defFont ft_font in
      if text_at text 0 = NUL then 0
      else c_trunc (height_loop gl_defFont ft text width 0 0 - 0.5 * of_int (h ft)))"

section \<open>The renderer\<close>

text \<open>
  Modelled from the spec: the colour type and the colours \<^verbatim>\<open>cRed\<close>, \<^verbatim>\<open>cGreen\<close>,
  \<^verbatim>\<open>cBlue\<close> (colour.h), the screen size behind \<^verbatim>\<open>SCREEN_W\<close> and \<^verbatim>\<open>SCREEN_H\<close>, the
  matrix functions \<^verbatim>\<open>gl_matrixPush\<close>, \<^verbatim>\<open>gl_matrixTranslate\<close>, \<^verbatim>\<open>gl_matrixPop\<close> and
  the vertex buffer functions are not among the sources, and the \<^verbatim>\<open>gl*\<close> calls belong
  to the graphics library. The part of the graphics state the font code touches is a
  record: the texture switch and binding, the translation of the model-view matrix with
  its stack of saved matrices, the current colour, the active vertex buffer, and the
  list of the quads drawn so far, each with the translation and colour it was drawn
  under. Colour components and coordinates are \<^verbatim>\<open>double\<close>s, modelled by rationals.
\<close>

record glColour =
  red :: rat
  green :: rat
  blue :: rat
  alpha :: rat

record palette =
  cRed :: glColour
  cGreen :: glColour
  cBlue :: glColour

record screen =
  SCREEN_W :: int
  SCREEN_H :: int

record quad =
  indices :: "int list"
  drawn_at :: "rat \<times> rat"
  drawn_in :: glColour

record gl_state =
  texture_2d :: bool
  bound_texture :: nat
  matrix :: "rat \<times> rat"
  saved_matrices :: "(rat \<times> rat) list"
  colour :: glColour
  active_vbo :: "nat option"
  drawn :: "quad list"

definition glColor4d :: "rat \<Rightarrow> rat \<Rightarrow> rat \<Rightarrow> rat \<Rightarrow> gl_state \<Rightarrow> gl_state" where
  "glColor4d r g b a gl = gl\<lparr>colour := \<lparr>red = r, green = g, blue = b, alpha = a\<rparr>\<rparr>"

definition COLOUR :: "glColour \<Rightarrow> gl_state \<Rightarrow> gl_state" where
  "COLOUR x gl = glColor4d (red x) (green x) (blue x) (alpha x) gl"

definition ACOLOUR :: "glColour \<Rightarrow> rat \<Rightarrow> gl_state \<Rightarrow> gl_state" where
  "ACOLOUR x a gl = glColor4d (red x) (green x) (blue x) a gl"

definition glDrawElements :: "int list \<Rightarrow> gl_state \<Rightarrow> gl_state" where
  "glDrawElements ind gl =
     gl\<lparr>drawn := drawn gl @ [\<lparr>indices = ind, drawn_at = matrix gl, drawn_in = colour gl\<rparr>]\<rparr>"

definition gl_matrixTranslate :: "rat \<Rightarrow> rat \<Rightarrow> gl_state \<Rightarrow> gl_state" where
  "gl_matrixTranslate x y gl = gl\<lparr>matrix := (fst (matrix gl) + x, snd (matrix gl) + y)\<rparr>"

definition gl_matrixPush :: "gl_state \<Rightarrow> gl_state" where
  "gl_matrixPush gl = gl\<lparr>saved_matrices := matrix gl # saved_matrices gl\<rparr>"

definition gl_matrixPop :: "gl_state \<Rightarrow> gl_state" where
  "gl_matrixPop gl =
     (case saved_matrices gl of
        [] \<Rightarrow> gl
      | m # ms \<Rightarrow> gl\<lparr>matrix := m, saved_matrices := ms\<rparr>)"

text \<open>C \<^verbatim>\<open>round\<close>: to the nearest integer, halfway cases away from zero.\<close>

definition c_round :: "rat \<Rightarrow> rat" where
  "c_round x = (if 0 \<le> x then of_int \<lfloor>x + 1 / 2\<rfloor> else of_int \<lceil>x - 1 / 2\<rceil>)"

text \<open>The conversion of an \<^verbatim>\<open>int\<close> to the 16-bit unsigned \<^verbatim>\<open>GLushort\<close>.\<close>

definition GLushort :: "int \<Rightarrow> int" where
  "GLushort v = v mod 65536"

definition gl_fontRenderStart ::
  "screen \<Rightarrow> glFont \<Rightarrow> rat \<Rightarrow> rat \<Rightarrow> glColour option \<Rightarrow> gl_state \<Rightarrow> gl_state" where
  "gl_fontRenderStart scr font x y c gl =
     (let gl1 = gl\<lparr>texture_2d := True, bound_texture := texture font\<rparr>;
          gl2 = gl_matrixPush gl1;
          gl3 = gl_matrixTranslate (c_round (x - of_int (SCREEN_W scr) / 2))
                  (c_round (y - of_int (SCREEN_H scr) / 2)) gl2;
          gl4 = (case c of None \<Rightarrow> glColor4d 1 1 1 1 gl3 | Some col \<Rightarrow> COLOUR col gl3)
      in gl4\<lparr>active_vbo := Some (vbo font)\<rparr>)"

text \<open>
  \<^verbatim>\<open>gl_fontRenderCharacter\<close>: the result is the returned state number and the graphics
  state after the call. \<^verbatim>\<open>ch\<close> is the \<^verbatim>\<open>int\<close> the byte was promoted to.
\<close>

definition gl_fontRenderCharacter ::
  "palette \<Rightarrow> glFont \<Rightarrow> int \<Rightarrow> glColour option \<Rightarrow> int \<Rightarrow> gl_state \<Rightarrow> int \<times> gl_state" where
  "gl_fontRenderCharacter pal font ch c state gl =
     (if ch = of_char ESC then (1, gl)
      else if state = 1 then
        (let a = (case c of None \<Rightarrow> 1 | Some col \<Rightarrow> alpha col) in
         (0,
          if ch = of_char (CHR ''r'') then ACOLOUR (cRed pal) a gl
          else if ch = of_char (CHR ''g'') then ACOLOUR (cGreen pal) a gl
          else if ch = of_char (CHR ''b'') then ACOLOUR (cBlue pal) a gl
          else if ch = of_char (CHR ''0'') then
            (case c of None \<Rightarrow> glColor4d 1 1 1 1 gl | Some col \<Rightarrow> COLOUR col gl)
          else gl))
      else
        (let ind = [GLushort (4 * ch + 0), GLushort (4 * ch + 1), GLushort (4 * ch + 3),
                    GLushort (4 * ch + 1), GLushort (4 * ch + 3), GLushort (4 * ch + 2)];
             gl1 = glDrawElements ind gl;
             gl2 = gl_matrixTranslate (of_int (adv_x (chars font ch)))
                     (of_int (adv_y (chars font ch))) gl1
         in (0, gl2)))"

definition gl_fontRenderEnd :: "gl_state \<Rightarrow> gl_state" where
  "gl_fontRenderEnd gl = (gl_matrixPop (gl\<lparr>active_vbo := None\<rparr>))\<lparr>texture_2d := False\<rparr>"

text \<open>
  The loop \<^verbatim>\<open>for (i=0; i < ret; i++) s = gl_fontRenderCharacter( ft_font, text[i], c, s )\<close>
  over the state number and the graphics state.
\<close>

definition render_chars ::
  "palette \<Rightarrow> glFont \<Rightarrow> glColour option \<Rightarrow> string \<Rightarrow> nat \<Rightarrow> int \<times> gl_state \<Rightarrow> int \<times> gl_state" where
  "render_chars pal font c text ret start =
     fold (\<lambda>i (s, gl). gl_fontRenderCharacter pal font (char_index (text_at text i)) c s gl)
       [0..<ret] start"

text \<open>
  \<^verbatim>\<open>gl_printMaxRaw\<close> and \<^verbatim>\<open>gl_printMidRaw\<close>: the result is the returned \<^verbatim>\<open>int\<close> and
  the graphics state after the call. The local \<^verbatim>\<open>s\<close> is read by the first call of
  \<^verbatim>\<open>gl_fontRenderCharacter\<close> before anything is assigned to it, and \<^verbatim>\<open>n\<close> is read
  unassigned when the text is NULL; the values they hold then are the arguments \<open>s0\<close>
  and \<open>n0\<close>.
\<close>

definition gl_printMaxRaw ::
  "screen \<Rightarrow> palette \<Rightarrow> glFont \<Rightarrow> int \<Rightarrow> glFont option \<Rightarrow> int \<Rightarrow> rat \<Rightarrow> rat \<Rightarrow>
   glColour option \<Rightarrow> string option \<Rightarrow> gl_state \<Rightarrow> int \<times> gl_state" where
  "gl_printMaxRaw scr pal gl_defFont s0 ft_font mx x y c text gl =
     (let ft = font_or_default gl_defFont ft_font;
          ret = fst (font_limitSize ft None text mx);
          gl1 = gl_fontRenderStart scr ft x y c gl;
          gl2 = snd (render_chars pal ft c (case text of None \<Rightarrow> [] | Some t \<Rightarrow> t) ret (s0, gl1))
      in (0, gl_fontRenderEnd gl2))"

definition gl_printMidRaw ::
  "screen \<Rightarrow> palette \<Rightarrow> glFont \<Rightarrow> int \<Rightarrow> int \<Rightarrow> glFont option \<Rightarrow> int \<Rightarrow> rat \<Rightarrow> rat \<Rightarrow>
   glColour option \<Rightarrow> string option \<Rightarrow> gl_state \<Rightarrow> int \<times> gl_state" where
  "gl_printMidRaw scr pal gl_defFont s0 n0 ft_font width x y c text gl =
     (let ft = font_or_default gl_defFont ft_font;
          (ret, nw) = font_limitSize ft (Some n0) text width;
          n = (case nw of None \<Rightarrow> n0 | Some v \<Rightarrow> v);
          x' = x + of_int (width - n) / 2;
          gl1 = gl_fontRenderStart scr ft x' y c gl;
          gl2 = snd (render_chars pal ft c (case text of None \<Rightarrow> [] | Some t \<Rightarrow> t) ret (s0, gl1))
      in (0, gl_fontRenderEnd gl2))"

text \<open>The two modes of the renderer, and the mode a state number stands for.\<close>

datatype render_mode = Normal | AwaitingDirective

definition mode_of :: "int \<Rightarrow> render_mode" where
  "mode_of state = (if state = 1 then AwaitingDirective else Normal)"

text \<open>Opaque white, the colour of \<^verbatim>\<open>glColor4d( 1., 1., 1., 1. )\<close>.\<close>

definition white :: glColour where
  "white = \<lparr>red = 1, green = 1, blue = 1, alpha = 1\<rparr>"

text \<open>A screen, a palette and a graphics state for the examples.\<close>

definition test_screen :: screen where
  "test_screen = \<lparr>SCREEN_W = 800, SCREEN_H = 600\<rparr>"

definition test_palette :: palette where
  "test_palette =
     \<lparr>cRed = \<lparr>red = 1, green = 0, blue = 0, alpha = 1\<rparr>,
      cGreen = \<lparr>red = 0, green = 1, blue = 0, alpha = 1\<rparr>,
      cBlue = \<lparr>red = 0, green = 0, blue = 1, alpha = 1\<rparr>\<rparr>"

definition gl_init :: gl_state where
  "gl_init =
     \<lparr>texture_2d = False, bound_texture = 0, matrix = (0, 0), saved_matrices = [],
      colour = \<lparr>red = 1, green = 1, blue = 1, alpha = 1\<rparr>, active_vbo = None, drawn = []\<rparr>"

section \<open>font_genTextureAtlas: the size of the atlas\<close>

text \<open>
  Of a rendered glyph (\<^verbatim>\<open>font_char_t\<close>) the sizing code reads the bitmap width \<^verbatim>\<open>w\<close>,
  the bitmap height \<^verbatim>\<open>h\<close> and the top bearing \<^verbatim>\<open>off_y\<close>; the fields carry the prefix
  \<open>c_\<close> here because \<open>h\<close> already names the height of a \<^verbatim>\<open>glFont\<close>. The glyphs come
  from FreeType through \<^verbatim>\<open>font_makeChar\<close> and are an argument of the model.
\<close>

record font_char_t =
  c_w :: int
  c_h :: int
  c_off_y :: int

text \<open>The first loop: \<^verbatim>\<open>total_w\<close>, \<^verbatim>\<open>total_h\<close>, \<^verbatim>\<open>total_A\<close> and \<^verbatim>\<open>max_h\<close>.\<close>

definition atlas_totals :: "font_char_t list \<Rightarrow> int \<times> int \<times> int \<times> int" where
  "atlas_totals cs =
     fold (\<lambda>c (total_w, total_h, total_A, max_h).
             (total_w + c_w c, total_h + (c_off_y c + c_h c), total_A + c_w c * c_h c,
              if c_h c > max_h then c_h c else max_h))
       cs (0, 0, 0, 0)"

text \<open>
  \<^verbatim>\<open>n = ceil( sqrt( (double)total_w / (double)max_h ) )\<close>, with the doubles taken as exact
  reals: the least \<open>k \<ge> 0\<close> with \<open>k\<^sup>2 \<times> max_h \<ge> total_w\<close>, found by counting up. For
  \<open>max_h = 0\<close> the quotient is a division by zero and for a negative \<open>total_w\<close> the root
  is not a number; the conversion of such a value to \<^verbatim>\<open>int\<close> is undefined, and the model
  has no result then.
\<close>

function ceil_sqrt_from :: "int \<Rightarrow> int \<Rightarrow> int \<Rightarrow> int" where
  "ceil_sqrt_from total_w max_h k =
     (if 0 < max_h \<and> 0 \<le> k \<and> k * k * max_h < total_w
      then ceil_sqrt_from total_w max_h (k + 1) else k)"
  by pat_completeness auto
termination
proof (relation "measure (\<lambda>(total_w, max_h, k). nat (total_w - k * k * max_h))")
  show "wf (measure (\<lambda>(total_w, max_h, k). nat (total_w - k * k * max_h)))" by simp
next
  fix total_w max_h k :: int
  assume a: "0 < max_h \<and> 0 \<le> k \<and> k * k * max_h < total_w"
  then have "k * k * max_h < (k + 1) * (k + 1) * max_h"
    by (intro mult_strict_right_mono mult_strict_mono) simp_all
  with a show "((total_w, max_h, k + 1), (total_w, max_h, k))
      \<in> measure (\<lambda>(total_w, max_h, k). nat (total_w - k * k * max_h))"
    by simp
qed

declare ceil_sqrt_from.simps [simp del]

definition atlas_rows :: "int \<Rightarrow> int \<Rightarrow> int option" where
  "atlas_rows total_w max_h =
     (if max_h \<le> 0 \<or> total_w < 0 then None else Some (ceil_sqrt_from total_w max_h 0))"

text \<open>
  The test fit: one step for one glyph, over \<^verbatim>\<open>x_off\<close>, \<^verbatim>\<open>y_off\<close> and \<^verbatim>\<open>h\<close>.
  \<^verbatim>\<open>gl_needPOT\<close> and \<^verbatim>\<open>gl_pot\<close> are not among the sources and are arguments.
\<close>

definition fit_step ::
  "bool \<Rightarrow> (int \<Rightarrow> int) \<Rightarrow> int \<Rightarrow> int \<Rightarrow> font_char_t \<Rightarrow> int \<times> int \<times> int \<Rightarrow> int \<times> int \<times> int" where
  "fit_step gl_needPOT gl_pot w max_h c st =
     (case st of (x_off, y_off, hh) \<Rightarrow>
        (case (if x_off + c_w c \<ge> w then
                 (0, y_off + max_h,
                  if y_off + max_h + max_h \<ge> hh
                  then (if gl_needPOT then gl_pot (hh + max_h) else hh + max_h)
                  else hh)
               else (x_off, y_off, hh)) of
           (x_off', y_off', hh') \<Rightarrow> (x_off' + c_w c, y_off', hh')))"

text \<open>
  The sizing part of \<^verbatim>\<open>font_genTextureAtlas\<close>, from the totals to the end of the test
  fit: the result is \<^verbatim>\<open>n\<close>, \<^verbatim>\<open>w\<close> and the final \<^verbatim>\<open>h\<close>. Both operands of
  \<^verbatim>\<open>total_w / n\<close> are \<^verbatim>\<open>int\<close>s, so the division is the integer division of C (for
  operands that are not negative, \<open>div\<close>) and \<^verbatim>\<open>ceil\<close> gets a whole number; \<^verbatim>\<open>n = 0\<close>
  is a division by zero.
\<close>

definition font_genTextureAtlas_size ::
  "bool \<Rightarrow> (int \<Rightarrow> int) \<Rightarrow> font_char_t list \<Rightarrow> (int \<times> int \<times> int) option" where
  "font_genTextureAtlas_size gl_needPOT gl_pot cs =
     (case atlas_totals cs of (total_w, total_h, total_A, max_h) \<Rightarrow>
        (case atlas_rows total_w max_h of
           None \<Rightarrow> None
         | Some n \<Rightarrow>
             if n = 0 then None
             else
               let w0 = total_w div n + 1;
                   h0 = max_h * n + 1;
                   w = (if gl_needPOT then gl_pot w0 else w0);
                   h1 = (if gl_needPOT then gl_pot h0 else h0);
                   (x_off, y_off, h2) = fold (fit_step gl_needPOT gl_pot w max_h) cs (0, 0, h1)
               in Some (n, w, h2)))"

text \<open>
  A glyph set for the examples: eleven glyphs one pixel wide and three high, and 117
  glyphs without ink.
\<close>

definition test_glyphs :: "font_char_t list" where
  "test_glyphs =
     replicate 11 \<lparr>c_w = 1, c_h = 3, c_off_y = 3\<rparr> @ replicate 117 \<lparr>c_w = 0, c_h = 0, c_off_y = 0\<rparr>"

section \<open>Vocabulary of the properties\<close>

text \<open>
  The vocabulary of the layout properties. Under the layout rules a tab, an escape
  marker and the directive byte after it add nothing to a width. \<open>measured\<close> marks the
  other bytes, which are the bytes whose advance the scan of \<^verbatim>\<open>gl_printWidthForText\<close>
  adds (a marker directly before the terminator stands alone); \<open>line_width\<close> is the
  width of the first \<open>k\<close> bytes of a text under these rules.
\<close>

fun measured :: "string \<Rightarrow> bool list" where
  "measured [] = []"
| "measured (c # cs) =
     (if c = ESC then
        (case cs of
           [] \<Rightarrow> [False]
         | d # ds \<Rightarrow> if d \<noteq> NUL then False # False # measured ds else False # measured cs)
      else (c \<noteq> TAB) # measured cs)"

definition is_measured :: "string \<Rightarrow> nat \<Rightarrow> bool" where
  "is_measured t k = (k < length t \<and> measured t ! k)"

definition line_end :: "string \<Rightarrow> nat" where
  "line_end t =
     length (takeWhile (\<lambda>k. \<not> (is_measured t k \<and> (t ! k = NL \<or> t ! k = NUL))) [0..<length t])"

definition line_width :: "glFont \<Rightarrow> string \<Rightarrow> nat \<Rightarrow> int" where
  "line_width ft_font t k =
     (\<Sum>j\<leftarrow>[0..<k]. if is_measured t j then char_adv ft_font (t ! j) else 0)"

definition last_space :: "string \<Rightarrow> nat \<Rightarrow> nat" where
  "last_space t k = last (0 # filter (\<lambda>j. is_measured t j \<and> t ! j = SPC) [0..<k])"

definition overflows_at :: "glFont \<Rightarrow> string \<Rightarrow> int \<Rightarrow> nat \<Rightarrow> bool" where
  "overflows_at ft_font t width k =
     (k < line_end t \<and> is_measured t k \<and> width < line_width ft_font t (Suc k) \<and>
      (\<forall>j\<in>{0..<k}. is_measured t j \<longrightarrow> line_width ft_font t (Suc j) \<le> width))"

text \<open>
  The bytes a scan counts that passes over an escape marker together with the two bytes
  after it, and counts every other byte.
\<close>

fun counted :: "string \<Rightarrow> string" where
  "counted [] = []"
| "counted (c # cs) = (if c = ESC then counted (drop 2 cs) else c # counted cs)"

text \<open>
  A position is a token boundary when the marks of the text from there on are those of
  the remaining text taken alone: no escape sequence straddles it.
\<close>

definition boundary :: "string \<Rightarrow> nat \<Rightarrow> bool" where
  "boundary t i = (i \<le> length t \<and> drop i (measured t) = measured (drop i t))"

text \<open>
  The number of lines of a text: \<^verbatim>\<open>gl_printWidthForText\<close> is applied to the rest of
  the text, the line it returns and the byte after it are consumed, and this is
  repeated until the consumed byte is the terminator.
\<close>

function line_count :: "glFont \<Rightarrow> glFont \<Rightarrow> string \<Rightarrow> int \<Rightarrow> nat \<Rightarrow> nat" where
  "line_count gl_defFont ft_font text width p =
     (let i = gl_printWidthForText gl_defFont (Some ft_font) (drop p text) width
      in if text_at text (p + i) \<noteq> NUL
         then Suc (line_count gl_defFont ft_font text width (p + i + 1))
         else 1)"
  by pat_completeness auto
termination
  by (relation "measure (\<lambda>(gl_defFont, ft_font, text, width, p). Suc (length text) - p)")
     (auto simp: text_at_def split: if_splits)

declare line_count.simps [simp del]

text \<open>
  The font of the examples: every glyph advances by 10 pixels, the space by 5, the
  nominal height is 10.
\<close>

definition test_font :: glFont where
  "test_font =
     \<lparr>h = 10,
      chars = (\<lambda>i. if i = 32 then \<lparr>adv_x = 5, adv_y = 0\<rparr> else \<lparr>adv_x = 10, adv_y = 0\<rparr>),
      texture = 1,
      vbo = 1\<rparr>"

text \<open>
  A font with the glyph table of \<open>test_font\<close> whose memory outside the table, where the
  indices of the bytes 128..255 point, holds the advance 7.
\<close>

definition leak_font :: glFont where
  "leak_font =
     \<lparr>h = 10,
      chars = (\<lambda>i. if 0 \<le> i \<and> i \<le> 127 then chars test_font i
                    else \<lparr>adv_x = 7, adv_y = 0\<rparr>),
      texture = 1,
      vbo = 1\<rparr>"

text \<open>A font in which the letter b has a negative advance.\<close>

definition neg_font :: glFont where
  "neg_font =
     \<lparr>h = 10,
      chars = (\<lambda>i. if i = 98 then \<lparr>adv_x = - 10, adv_y = 0\<rparr> else \<lparr>adv_x = 10, adv_y = 0\<rparr>),
      texture = 1,
      vbo = 1\<rparr>"

section \<open>Properties of font_limitSize\<close>

lemma text_at_strlen: "text_at t i \<noteq> NUL \<Longrightarrow> i < length t"
  by (simp add: text_at_def split: if_splits)

lemma limit_loop_ge: "i \<le> fst (limit_loop ft_font t mx i n)"
proof (induction ft_font t mx i n rule: limit_loop.induct)
  case (1 ft_font t mx i n)
  show ?case
  proof (cases "text_at t i = NUL")
    case True
    then show ?thesis by (simp add: limit_loop.simps)
  next
    case False
    show ?thesis
    proof (cases "n + char_adv ft_font (text_at t i) > mx")
      case True
      with False show ?thesis
        by (subst limit_loop.simps) (simp add: Let_def)
    next
      case over: False
      have "Suc i \<le> fst (limit_loop ft_font t mx (i + 1) (n + char_adv ft_font (text_at t i)))"
        using "1.IH" [OF False refl over] by simp
      with False over show ?thesis
        by (subst limit_loop.simps) (simp add: Let_def)
    qed
  qed
qed

lemma limit_loop_mono:
  "mx1 \<le> mx2 \<Longrightarrow>
   fst (limit_loop ft_font t mx1 i n) \<le> fst (limit_loop ft_font t mx2 i n)"
proof (induction ft_font t mx1 i n rule: limit_loop.induct)
  case (1 ft_font t mx1 i n)
  let ?a = "char_adv ft_font (text_at t i)"
  show ?case
  proof (cases "text_at t i = NUL")
    case True
    then show ?thesis by (simp add: limit_loop.simps)
  next
    case False
    show ?thesis
    proof (cases "n + ?a > mx1")
      case True
      have "fst (limit_loop ft_font t mx1 i n) = i"
        using False True by (subst limit_loop.simps) (simp add: Let_def)
      then show ?thesis using limit_loop_ge [of i ft_font t mx2 n] by simp
    next
      case fits: False
      with "1.prems" have fits2: "\<not> n + ?a > mx2" by simp
      have l: "limit_loop ft_font t mx1 i n = limit_loop ft_font t mx1 (i + 1) (n + ?a)"
        using False fits by (subst limit_loop.simps) (simp add: Let_def)
      have r: "limit_loop ft_font t mx2 i n = limit_loop ft_font t mx2 (i + 1) (n + ?a)"
        using False fits2 by (subst limit_loop.simps) (simp add: Let_def)
      show ?thesis
        unfolding l r using "1.IH" [OF False refl fits "1.prems"] .
    qed
  qed
qed

lemma strlen_le_length: "strlen t \<le> length t"
  by (simp add: strlen_def length_takeWhile_le)

lemma strlen_nth: "i < strlen t \<Longrightarrow> t ! i \<noteq> NUL"
  unfolding strlen_def using nth_mem [of i "takeWhile (\<lambda>c. c \<noteq> NUL) t"]
  by (metis (mono_tags, lifting) set_takeWhileD takeWhile_nth)

lemma text_at_strlen_NUL: "text_at t (strlen t) = NUL"
  unfolding text_at_def strlen_def
  using nth_length_takeWhile [of "\<lambda>c. c \<noteq> NUL" t] by auto

lemma text_at_before_strlen: "i < strlen t \<Longrightarrow> text_at t i \<noteq> NUL"
  using strlen_nth [of i t] strlen_le_length [of t] by (simp add: text_at_def)

lemma strlen_step: "i \<le> strlen t \<Longrightarrow> text_at t i \<noteq> NUL \<Longrightarrow> i < strlen t"
  using text_at_strlen_NUL [of t] by (cases "i = strlen t") auto

lemma strlen_stop: "i \<le> strlen t \<Longrightarrow> text_at t i = NUL \<Longrightarrow> i = strlen t"
  using text_at_before_strlen [of i t] by (cases "i = strlen t") auto

text \<open>
  The loop against any width function \<open>W\<close> on prefix lengths that grows by the advance
  of the byte at each position before the terminator: started with \<open>n = W i\<close>, it stops
  at the first position \<open>c\<close> whose byte takes \<open>W\<close> over the budget (or at the terminator)
  and returns \<open>W c\<close>.
\<close>

lemma limit_loop_spec:
  "limit_loop ft_font t mx i n = (c, wd) \<Longrightarrow>
   (\<forall>j<strlen t. W (Suc j) = W j + char_adv ft_font (text_at t j)) \<Longrightarrow>
   n = W i \<Longrightarrow> i \<le> strlen t \<Longrightarrow> (\<forall>k. 0 < k \<and> k \<le> i \<longrightarrow> W k \<le> mx) \<Longrightarrow>
   c \<le> strlen t \<and> wd = W c \<and>
   (\<forall>k. 0 < k \<and> k \<le> c \<longrightarrow> W k \<le> mx) \<and>
   (c < strlen t \<longrightarrow> mx < W (Suc c))"
proof (induction ft_font t mx i n rule: limit_loop.induct)
  case (1 ft_font t mx i n)
  let ?a = "char_adv ft_font (text_at t i)"
  note step = "1.prems"(2) and n = "1.prems"(3) and le = "1.prems"(4) and fit = "1.prems"(5)
  show ?case
  proof (cases "text_at t i = NUL")
    case True
    with "1.prems"(1) have "c = i" "wd = n"
      by (simp_all add: limit_loop.simps)
    moreover have "i = strlen t" using strlen_stop le True by blast
    ultimately show ?thesis using n fit by simp
  next
    case False
    then have lt: "i < strlen t" using strlen_step le by blast
    have suc: "W (Suc i) = n + ?a"
      using step lt n by simp
    show ?thesis
    proof (cases "n + ?a > mx")
      case True
      with False "1.prems"(1) have "c = i" "wd = n"
        by (simp_all add: limit_loop.simps [of ft_font t mx i n] Let_def)
      then show ?thesis using n le fit lt suc True by simp
    next
      case fits: False
      have run: "limit_loop ft_font t mx (i + 1) (n + ?a) = (c, wd)"
        using False fits "1.prems"(1)
        by (simp add: limit_loop.simps [of ft_font t mx i n] Let_def)
      have inv: "\<forall>k. 0 < k \<and> k \<le> i + 1 \<longrightarrow> W k \<le> mx"
      proof (intro allI impI)
        fix k assume k: "0 < k \<and> k \<le> i + 1"
        show "W k \<le> mx"
        proof (cases "k = Suc i")
          case True
          then show ?thesis using suc fits by simp
        next
          case False
          with k have "0 < k \<and> k \<le> i" by simp
          then show ?thesis using fit by blast
        qed
      qed
      show ?thesis
        using "1.IH" [OF False refl fits run step _ _ inv] suc lt by simp
    qed
  qed
qed

lemma width_mono:
  fixes W :: "nat \<Rightarrow> int"
  shows "(\<forall>j<m. W j \<le> W (Suc j)) \<Longrightarrow> k \<le> m \<Longrightarrow> j \<le> k \<Longrightarrow> W j \<le> W k"
proof (induction k)
  case 0
  then show ?case by simp
next
  case (Suc k)
  show ?case
  proof (cases "j = Suc k")
    case True
    then show ?thesis by simp
  next
    case False
    with Suc.prems have "j \<le> k" and "k < m" by simp_all
    with Suc have "W j \<le> W k" and "W k \<le> W (Suc k)" by simp_all
    then show ?thesis by simp
  qed
qed

lemma take_sum_Suc:
  "j < strlen t \<Longrightarrow>
   (\<Sum>c\<leftarrow>take (Suc j) t. char_adv ft_font c)
     = (\<Sum>c\<leftarrow>take j t. char_adv ft_font c) + char_adv ft_font (text_at t j)"
  using strlen_le_length [of t] by (simp add: text_at_def take_Suc_conv_app_nth)

section \<open>Properties of gl_printWidthForText\<close>

lemma length_measured [simp]: "length (measured t) = length t"
  by (induction t rule: measured.induct) (auto split: list.splits)


lemma boundary_0: "boundary t 0"
  by (simp add: boundary_def)

lemma boundary_plain:
  assumes "boundary t i" "i < length t" "t ! i \<noteq> ESC"
  shows "measured t ! i = (t ! i \<noteq> TAB)" and "boundary t (Suc i)"
proof -
  have d: "drop i t = t ! i # drop (Suc i) t"
    using assms(2) by (simp add: Cons_nth_drop_Suc)
  have m: "drop i (measured t) = measured t ! i # drop (Suc i) (measured t)"
    using assms(2) by (simp add: Cons_nth_drop_Suc)
  have "measured t ! i # drop (Suc i) (measured t) = (t ! i \<noteq> TAB) # measured (drop (Suc i) t)"
    using assms(1,3) unfolding boundary_def m by (simp add: d)
  then show "measured t ! i = (t ! i \<noteq> TAB)" and "boundary t (Suc i)"
    using assms(2) by (simp_all add: boundary_def)
qed

lemma boundary_esc_last:
  assumes "boundary t i" "i < length t" "t ! i = ESC" "text_at t (i + 1) = NUL"
  shows "\<not> measured t ! i" and "boundary t (Suc i)"
proof -
  have d: "drop i t = ESC # drop (Suc i) t"
    using assms(2,3) by (simp add: Cons_nth_drop_Suc [symmetric])
  have m: "drop i (measured t) = measured t ! i # drop (Suc i) (measured t)"
    using assms(2) by (simp add: Cons_nth_drop_Suc)
  have "measured (ESC # drop (Suc i) t) = False # measured (drop (Suc i) t)"
  proof (cases "drop (Suc i) t")
    case Nil
    then show ?thesis by simp
  next
    case (Cons d ds)
    then have "Suc i < length t" by (cases "Suc i < length t") auto
    then have "t ! Suc i = d" using Cons by (metis Cons_nth_drop_Suc list.inject)
    with assms(4) \<open>Suc i < length t\<close> have "d = NUL" by (simp add: text_at_def)
    with Cons show ?thesis by simp
  qed
  then have "measured t ! i # drop (Suc i) (measured t) = False # measured (drop (Suc i) t)"
    using assms(1) unfolding boundary_def m d by simp
  then show "\<not> measured t ! i" and "boundary t (Suc i)"
    using assms(2) by (simp_all add: boundary_def)
qed

lemma boundary_esc_pair:
  assumes "boundary t i" "i < length t" "t ! i = ESC" "text_at t (i + 1) \<noteq> NUL"
  shows "\<not> measured t ! i" and "\<not> measured t ! (Suc i)" and "Suc i < length t"
    and "boundary t (i + 2)"
proof -
  show len: "Suc i < length t"
    using assms(4) by (simp add: text_at_def split: if_splits)
  have d: "drop i t = ESC # t ! Suc i # drop (Suc (Suc i)) t"
    using assms(2,3) len by (simp add: Cons_nth_drop_Suc [symmetric])
  have m: "drop i (measured t) =
      measured t ! i # measured t ! Suc i # drop (Suc (Suc i)) (measured t)"
    using assms(2) len by (simp add: Cons_nth_drop_Suc)
  have nz: "t ! Suc i \<noteq> NUL"
    using assms(4) len by (simp add: text_at_def)
  have "measured t ! i # measured t ! Suc i # drop (Suc (Suc i)) (measured t) =
      False # False # measured (drop (Suc (Suc i)) t)"
    using assms(1) nz unfolding boundary_def m d by simp
  then show "\<not> measured t ! i" and "\<not> measured t ! (Suc i)" and "boundary t (i + 2)"
    using len by (simp_all add: boundary_def)
qed

lemma line_end_le: "line_end t \<le> length t"
  unfolding line_end_def
  using length_takeWhile_le [of _ "[0..<length t]"] by (metis length_upt minus_nat.diff_0)

lemma line_end_before:
  "k < line_end t \<Longrightarrow> \<not> (is_measured t k \<and> (t ! k = NL \<or> t ! k = NUL))"
proof -
  let ?Q = "\<lambda>k. \<not> (is_measured t k \<and> (t ! k = NL \<or> t ! k = NUL))"
  assume k: "k < line_end t"
  then have "takeWhile ?Q [0..<length t] ! k \<in> set (takeWhile ?Q [0..<length t])"
    unfolding line_end_def by (intro nth_mem)
  moreover have "takeWhile ?Q [0..<length t] ! k = k"
    using k line_end_le [of t] unfolding line_end_def by (simp add: takeWhile_nth)
  ultimately show ?thesis using set_takeWhileD by fastforce
qed

lemma line_end_at:
  "line_end t < length t \<Longrightarrow>
   is_measured t (line_end t) \<and> (t ! line_end t = NL \<or> t ! line_end t = NUL)"
  unfolding line_end_def
  using nth_length_takeWhile
    [of "\<lambda>k. \<not> (is_measured t k \<and> (t ! k = NL \<or> t ! k = NUL))" "[0..<length t]"]
  by (simp add: line_end_def [symmetric])

lemma line_end_step:
  "i \<le> line_end t \<Longrightarrow> i < length t \<Longrightarrow> \<not> (is_measured t i \<and> (t ! i = NL \<or> t ! i = NUL)) \<Longrightarrow>
   Suc i \<le> line_end t"
  using line_end_at [of t] by (cases "i = line_end t") auto

lemma line_end_stop:
  "i \<le> line_end t \<Longrightarrow> length t \<le> i \<or> (is_measured t i \<and> (t ! i = NL \<or> t ! i = NUL)) \<Longrightarrow>
   line_end t = i"
  using line_end_before [of i t] line_end_le [of t] by (cases "i = line_end t") auto

lemma line_width_Suc:
  "line_width ft_font t (Suc k) =
   line_width ft_font t k + (if is_measured t k then char_adv ft_font (t ! k) else 0)"
  by (simp add: line_width_def)

lemma last_space_Suc:
  "last_space t (Suc k) = (if is_measured t k \<and> t ! k = SPC then k else last_space t k)"
  by (simp add: last_space_def)

lemma wrap_loop_stop:
  "text_at t i = NL \<or> text_at t i = NUL \<Longrightarrow> wrap_loop ft_font t width i n ls = i"
  by (subst wrap_loop.simps) auto

lemma wrap_loop_tab:
  "text_at t i = TAB \<Longrightarrow>
   wrap_loop ft_font t width i n ls = wrap_loop ft_font t width (i + 1) n ls"
  by (subst wrap_loop.simps) auto

lemma wrap_loop_esc_pair:
  "text_at t i = ESC \<Longrightarrow> text_at t (i + 1) \<noteq> NUL \<Longrightarrow>
   wrap_loop ft_font t width i n ls = wrap_loop ft_font t width (i + 2) n ls"
  by (subst wrap_loop.simps) auto

lemma wrap_loop_esc_last:
  "text_at t i = ESC \<Longrightarrow> text_at t (i + 1) = NUL \<Longrightarrow>
   wrap_loop ft_font t width i n ls = wrap_loop ft_font t width (i + 1) n ls"
  by (subst wrap_loop.simps) auto

lemma wrap_loop_glyph:
  "text_at t i \<noteq> NL \<Longrightarrow> text_at t i \<noteq> NUL \<Longrightarrow> text_at t i \<noteq> TAB \<Longrightarrow>
   text_at t i \<noteq> ESC \<Longrightarrow>
   wrap_loop ft_font t width i n ls =
     (if width < n + char_adv ft_font (text_at t i)
      then (if text_at t i = SPC then i else ls)
      else wrap_loop ft_font t width (i + 1) (n + char_adv ft_font (text_at t i))
             (if text_at t i = SPC then i else ls))"
  by (subst wrap_loop.simps) (simp add: Let_def)

lemma wrap_loop_inv:
  "boundary t i \<Longrightarrow> i \<le> line_end t \<Longrightarrow> n = line_width ft_font t i \<Longrightarrow>
   ls = last_space t i \<Longrightarrow>
   (\<forall>j<i. is_measured t j \<longrightarrow> line_width ft_font t (Suc j) \<le> width) \<Longrightarrow>
   ((\<forall>k<line_end t. is_measured t k \<longrightarrow> line_width ft_font t (Suc k) \<le> width) \<longrightarrow>
      wrap_loop ft_font t width i n ls = line_end t) \<and>
   (\<forall>k. overflows_at ft_font t width k \<longrightarrow>
      wrap_loop ft_font t width i n ls = last_space t (Suc k))"
proof (induction ft_font t width i n ls rule: wrap_loop.induct)
  case (1 ft_font t width i n ls)
  note bnd = "1.prems"(1) and le = "1.prems"(2) and n = "1.prems"(3)
    and ls = "1.prems"(4) and fits = "1.prems"(5)
  have early: "i \<le> k" if "overflows_at ft_font t width k" for k
    using that fits unfolding overflows_at_def by (meson not_le_imp_less not_less)
  show ?case
  proof (cases "text_at t i \<noteq> NL \<and> text_at t i \<noteq> NUL")
    case False
    have run: "wrap_loop ft_font t width i n ls = i"
      using False by (intro wrap_loop_stop) auto
    have "line_end t = i"
    proof (cases "i < length t")
      case True
      then have ti: "t ! i = NL \<or> t ! i = NUL" using False by (auto simp: text_at_def)
      then have "t ! i \<noteq> ESC" by auto
      from boundary_plain(1) [OF bnd True this] ti True have "is_measured t i"
        by (auto simp: is_measured_def)
      with ti show ?thesis using line_end_stop [OF le] by blast
    next
      case False
      then show ?thesis using line_end_stop [OF le] by simp
    qed
    moreover have "\<not> overflows_at ft_font t width k" for k
      using early [of k] \<open>line_end t = i\<close> by (auto simp: overflows_at_def)
    ultimately show ?thesis using run by simp
  next
    case go: True
    then have len: "i < length t" by (auto simp: text_at_def split: if_splits)
    then have ti: "text_at t i = t ! i" by (simp add: text_at_def)
    show ?thesis
    proof (cases "text_at t i = TAB")
      case True
      have run: "wrap_loop ft_font t width i n ls = wrap_loop ft_font t width (i + 1) n ls"
        using True by (rule wrap_loop_tab)
      have "t ! i \<noteq> ESC" using True ti by simp
      from boundary_plain [OF bnd len this] True ti
      have nm: "\<not> is_measured t i" and b': "boundary t (i + 1)"
        by (simp_all add: is_measured_def)
      have le': "i + 1 \<le> line_end t" using line_end_step [OF le len] nm by simp
      have n': "n = line_width ft_font t (i + 1)" using n nm by (simp add: line_width_Suc)
      have ls': "ls = last_space t (i + 1)" using ls nm by (simp add: last_space_Suc)
      have fits': "\<forall>j<i + 1. is_measured t j \<longrightarrow> line_width ft_font t (Suc j) \<le> width"
        using fits nm by (auto simp: less_Suc_eq)
      show ?thesis
        unfolding run using "1.IH"(1) [OF go True b' le' n' ls' fits'] .
    next
      case notab: False
      show ?thesis
      proof (cases "text_at t i = ESC")
        case True
        then have esc: "t ! i = ESC" using ti by simp
        show ?thesis
        proof (cases "text_at t (i + 1) \<noteq> NUL")
          case pair: True
          have run: "wrap_loop ft_font t width i n ls = wrap_loop ft_font t width (i + 2) n ls"
            using True pair by (rule wrap_loop_esc_pair)
          from boundary_esc_pair [OF bnd len esc pair]
          have nm: "\<not> is_measured t i" "\<not> is_measured t (Suc i)" and len': "Suc i < length t"
            and b': "boundary t (i + 2)"
            by (simp_all add: is_measured_def)
          have "Suc i \<le> line_end t" using line_end_step [OF le len] nm by simp
          then have le': "i + 2 \<le> line_end t" using line_end_step [OF _ len'] nm by simp
          have n': "n = line_width ft_font t (i + 2)" using n nm by (simp add: line_width_Suc)
          have ls': "ls = last_space t (i + 2)" using ls nm by (simp add: last_space_Suc)
          have fits': "\<forall>j<i + 2. is_measured t j \<longrightarrow> line_width ft_font t (Suc j) \<le> width"
            using fits nm by (auto simp: less_Suc_eq)
          show ?thesis
            unfolding run using "1.IH"(2) [OF go notab True pair b' le' n' ls' fits'] .
        next
          case single: False
          have run: "wrap_loop ft_font t width i n ls = wrap_loop ft_font t width (i + 1) n ls"
            using True single by (intro wrap_loop_esc_last) auto
          from single have "text_at t (i + 1) = NUL" by simp
          from boundary_esc_last [OF bnd len esc this]
          have nm: "\<not> is_measured t i" and b': "boundary t (i + 1)"
            by (simp_all add: is_measured_def)
          have le': "i + 1 \<le> line_end t" using line_end_step [OF le len] nm by simp
          have n': "n = line_width ft_font t (i + 1)" using n nm by (simp add: line_width_Suc)
          have ls': "ls = last_space t (i + 1)" using ls nm by (simp add: last_space_Suc)
          have fits': "\<forall>j<i + 1. is_measured t j \<longrightarrow> line_width ft_font t (Suc j) \<le> width"
            using fits nm by (auto simp: less_Suc_eq)
          show ?thesis
            unfolding run using "1.IH"(3) [OF go notab True single b' le' n' ls' fits'] .
        qed
      next
        case glyph: False
        let ?n' = "n + char_adv ft_font (text_at t i)"
        let ?ls' = "if text_at t i = SPC then i else ls"
        have "t ! i \<noteq> ESC" using glyph ti by simp
        from boundary_plain [OF bnd len this] notab ti len
        have m: "is_measured t i" and b': "boundary t (i + 1)"
          by (simp_all add: is_measured_def)
        have brk: "\<not> (t ! i = NL \<or> t ! i = NUL)" using go ti by simp
        have le': "i + 1 \<le> line_end t" using line_end_step [OF le len] brk by simp
        have n': "?n' = line_width ft_font t (i + 1)"
          using n m ti by (simp add: line_width_Suc)
        have ls': "?ls' = last_space t (i + 1)"
          using ls m ti by (simp add: last_space_Suc)
        show ?thesis
        proof (cases "width < ?n'")
          case True
          have run: "wrap_loop ft_font t width i n ls = ?ls'"
            using go notab glyph True by (simp add: wrap_loop_glyph)
          have over: "overflows_at ft_font t width i"
            using le' m True n' fits by (simp add: overflows_at_def)
          have "k = i" if k: "overflows_at ft_font t width k" for k
          proof (rule ccontr)
            assume "k \<noteq> i"
            with early [OF k] have "i < k" by simp
            with k m have "line_width ft_font t (Suc i) \<le> width"
              by (simp add: overflows_at_def)
            with True n' show False by simp
          qed
          moreover have "\<not> (\<forall>k<line_end t. is_measured t k \<longrightarrow>
              line_width ft_font t (Suc k) \<le> width)"
            using over by (auto simp: overflows_at_def)
          ultimately show ?thesis using run ls' by auto
        next
          case False
          have run: "wrap_loop ft_font t width i n ls =
              wrap_loop ft_font t width (i + 1) ?n' ?ls'"
            using go notab glyph False by (simp add: wrap_loop_glyph)
          have fits': "\<forall>j<i + 1. is_measured t j \<longrightarrow> line_width ft_font t (Suc j) \<le> width"
            using fits False n' by (auto simp: less_Suc_eq)
          show ?thesis
            unfolding run
            using "1.IH"(4) [OF go notab glyph refl refl False b' le' n' ls' fits'] .
        qed
      qed
    qed
  qed
qed

lemma measured_plain:
  "ESC \<notin> set t \<Longrightarrow> measured t = map (\<lambda>c. c \<noteq> TAB) t"
  by (induction t rule: measured.induct) (auto split: list.splits)

lemma measured_not_skipped:
  "k < length t \<Longrightarrow> measured t ! k \<Longrightarrow> t ! k \<noteq> TAB \<and> t ! k \<noteq> ESC"
proof (induction t arbitrary: k rule: measured.induct)
  case 1
  then show ?case by simp
next
  case (2 c cs)
  show ?case
  proof (cases "c = ESC")
    case False
    with 2 show ?thesis by (cases k) auto
  next
    case True
    show ?thesis
    proof (cases cs)
      case Nil
      with True "2.prems" show ?thesis by simp
    next
      case (Cons d ds)
      show ?thesis
      proof (cases "d \<noteq> NUL")
        case True
        with \<open>c = ESC\<close> Cons "2.prems" "2.IH"(1) [OF \<open>c = ESC\<close> Cons True, of "k - 2"]
        show ?thesis
          by (cases k; cases "k - 1") (auto simp: nth_Cons')
      next
        case False
        with \<open>c = ESC\<close> Cons "2.prems" "2.IH"(2) [OF \<open>c = ESC\<close> Cons False, of "k - 1"]
        show ?thesis
          by (cases k) (auto simp: nth_Cons')
      qed
    qed
  qed
qed

lemma line_end_plain:
  assumes "ESC \<notin> set t"
  shows "line_end t = length (takeWhile (\<lambda>c. c \<noteq> NL \<and> c \<noteq> NUL) t)"
proof -
  let ?Q = "\<lambda>k. \<not> (is_measured t k \<and> (t ! k = NL \<or> t ! k = NUL))"
  let ?P = "\<lambda>c. c \<noteq> NL \<and> c \<noteq> NUL"
  have "takeWhile ?Q [0..<length t] = takeWhile (?P \<circ> (!) t) [0..<length t]"
    by (rule takeWhile_cong) (auto simp: is_measured_def measured_plain [OF assms])
  then have "line_end t = length (map ((!) t) (takeWhile (?P \<circ> (!) t) [0..<length t]))"
    by (simp add: line_end_def)
  also have "\<dots> = length (takeWhile ?P (map ((!) t) [0..<length t]))"
    by (simp only: takeWhile_map)
  finally show ?thesis by (simp add: map_nth)
qed

text \<open>
  Either no measured byte before the end of the line takes the width over the budget,
  or there is a first one that does.
\<close>

lemma first_overflow_exists:
  assumes "\<exists>k<line_end t. is_measured t k \<and> width < line_width ft_font t (Suc k)"
  shows "\<exists>k. overflows_at ft_font t width k"
proof -
  let ?P = "\<lambda>k. k < line_end t \<and> is_measured t k \<and> width < line_width ft_font t (Suc k)"
  define k0 where "k0 = (LEAST k. ?P k)"
  from assms have ex: "\<exists>k. ?P k" by blast
  have k0: "?P k0" unfolding k0_def using ex by (rule LeastI_ex)
  have "line_width ft_font t (Suc j) \<le> width" if "j < k0" and "is_measured t j" for j
  proof -
    have "\<not> ?P j" using that(1) unfolding k0_def by (rule not_less_Least)
    moreover have "j < line_end t" using that(1) k0 by simp
    ultimately show ?thesis using that(2) by simp
  qed
  with k0 have "overflows_at ft_font t width k0" by (simp add: overflows_at_def)
  then show ?thesis ..
qed

text \<open>
  The index returned never lies beyond the terminator, so the \<^verbatim>\<open>do ... while\<close> loop of
  \<^verbatim>\<open>gl_printHeightRaw\<close> reads \<^verbatim>\<open>text[p-1]\<close> inside the string.
\<close>

lemma wrap_loop_le_strlen:
  "i \<le> strlen t \<Longrightarrow> ls \<le> strlen t \<Longrightarrow> wrap_loop ft_font t width i n ls \<le> strlen t"
proof (induction ft_font t width i n ls rule: wrap_loop.induct)
  case (1 ft_font t width i n ls)
  show ?case
  proof (cases "text_at t i = NL \<or> text_at t i = NUL")
    case True
    then show ?thesis using "1.prems" by (simp add: wrap_loop_stop)
  next
    case False
    then have go: "text_at t i \<noteq> NL \<and> text_at t i \<noteq> NUL" by simp
    then have lt: "i < strlen t" using strlen_step "1.prems"(1) by blast
    show ?thesis
    proof (cases "text_at t i = TAB")
      case True
      from "1.IH"(1) [OF go True _ "1.prems"(2)] lt True show ?thesis
        by (simp add: wrap_loop_tab)
    next
      case notab: False
      show ?thesis
      proof (cases "text_at t i = ESC")
        case esc: True
        show ?thesis
        proof (cases "text_at t (i + 1) \<noteq> NUL")
          case pair: True
          have "i + 1 < strlen t" using strlen_step [of "i + 1" t] lt pair by simp
          with "1.IH"(2) [OF go notab esc pair _ "1.prems"(2)] esc pair show ?thesis
            by (simp add: wrap_loop_esc_pair)
        next
          case single: False
          from "1.IH"(3) [OF go notab esc single _ "1.prems"(2)] lt esc single show ?thesis
            by (simp add: wrap_loop_esc_last)
        qed
      next
        case glyph: False
        let ?ls = "if text_at t i = SPC then i else ls"
        have ls': "?ls \<le> strlen t" using lt "1.prems"(2) by simp
        show ?thesis
        proof (cases "width < n + char_adv ft_font (text_at t i)")
          case True
          with go notab glyph ls' show ?thesis by (simp add: wrap_loop_glyph)
        next
          case fits: False
          from "1.IH"(4) [OF go notab glyph refl refl fits _ ls'] lt go notab glyph fits
          show ?thesis by (simp add: wrap_loop_glyph)
        qed
      qed
    qed
  qed
qed

lemma gl_printWidthForText_le_strlen:
  "gl_printWidthForText gl_defFont ft_font t width \<le> strlen t"
  unfolding gl_printWidthForText_def by (rule wrap_loop_le_strlen) simp_all

section \<open>Properties of gl_printHeightRaw\<close>

lemma line_count_pos: "1 \<le> line_count gl_defFont ft_font t width p"
  by (subst line_count.simps) (simp add: Let_def)

lemma height_loop_lines:
  "height_loop gl_defFont ft_font t width p y =
   y + 1.5 * of_int (h ft_font) * of_nat (line_count gl_defFont ft_font t width p)"
proof (induction gl_defFont ft_font t width p y rule: height_loop.induct)
  case (1 gl_defFont ft_font t width p y)
  let ?i = "gl_printWidthForText gl_defFont (Some ft_font) (drop p t) width"
  show ?case
  proof (cases "text_at t (p + ?i) \<noteq> NUL")
    case True
    have "height_loop gl_defFont ft_font t width p y =
        height_loop gl_defFont ft_font t width (p + (?i + 1)) (y + 1.5 * of_int (h ft_font))"
      using True by (subst height_loop.simps) (simp add: Let_def)
    also have "\<dots> = y + 1.5 * of_int (h ft_font) + 1.5 * of_int (h ft_font) *
        of_nat (line_count gl_defFont ft_font t width (p + (?i + 1)))"
      using "1.IH" [OF refl refl refl] True by simp
    also have "line_count gl_defFont ft_font t width p =
        Suc (line_count gl_defFont ft_font t width (p + (?i + 1)))"
      using True by (subst line_count.simps) (simp add: Let_def add.assoc)
    then have "y + 1.5 * of_int (h ft_font) + 1.5 * of_int (h ft_font) *
        of_nat (line_count gl_defFont ft_font t width (p + (?i + 1))) =
        y + 1.5 * of_int (h ft_font) * of_nat (line_count gl_defFont ft_font t width p)"
      by (simp add: algebra_simps)
    finally show ?thesis .
  next
    case False
    have "height_loop gl_defFont ft_font t width p y = y + 1.5 * of_int (h ft_font)"
      using False by (subst height_loop.simps) (simp add: Let_def)
    moreover have "line_count gl_defFont ft_font t width p = 1"
      using False by (subst line_count.simps) (simp add: Let_def)
    ultimately show ?thesis by simp
  qed
qed

lemma c_trunc_half:
  "0 \<le> a \<Longrightarrow> c_trunc (of_int a / 2) = a div 2"
  unfolding c_trunc_def by (simp add: floor_divide_of_int_eq [of a 2, simplified])

section \<open>The glyph entries a layout call reads\<close>

lemma text_at_in_set: "text_at t i \<noteq> NUL \<Longrightarrow> text_at t i \<in> set t"
  by (auto simp: text_at_def split: if_splits)

lemma limit_loop_cong:
  "\<forall>c\<in>set t. char_adv f1 c = char_adv f2 c \<Longrightarrow>
   limit_loop f1 t mx i n = limit_loop f2 t mx i n"
proof (induction f1 t mx i n rule: limit_loop.induct)
  case (1 f1 t mx i n)
  show ?case
  proof (cases "text_at t i = NUL")
    case True
    then show ?thesis by (simp add: limit_loop.simps)
  next
    case False
    then have adv: "char_adv f1 (text_at t i) = char_adv f2 (text_at t i)"
      using "1.prems" text_at_in_set by blast
    show ?thesis
    proof (cases "n + char_adv f1 (text_at t i) > mx")
      case True
      with False adv show ?thesis
        by (simp add: limit_loop.simps [of _ t mx i n] Let_def)
    next
      case fits: False
      from "1.IH" [OF False refl fits "1.prems"] False fits adv show ?thesis
        by (simp add: limit_loop.simps [of _ t mx i n] Let_def)
    qed
  qed
qed

lemma width_loop_cong:
  "\<forall>c\<in>set t. char_adv f1 c = char_adv f2 c \<Longrightarrow>
   width_loop f1 t i n = width_loop f2 t i n"
proof (induction f1 t i n rule: width_loop.induct)
  case (1 f1 t i n)
  show ?case
  proof (cases "i < strlen t")
    case False
    then show ?thesis by (simp add: width_loop.simps)
  next
    case True
    then have "text_at t i \<noteq> NUL" by (rule text_at_before_strlen)
    then have adv: "char_adv f1 (text_at t i) = char_adv f2 (text_at t i)"
      using "1.prems" text_at_in_set by blast
    show ?thesis
    proof (cases "text_at t i = ESC")
      case esc: True
      show ?thesis
      proof (cases "text_at t (i + 1) \<noteq> NUL")
        case pair: True
        from "1.IH"(1) [OF True esc pair "1.prems"] True esc pair show ?thesis
          by (simp add: width_loop.simps [of _ t i n])
      next
        case single: False
        from "1.IH"(2) [OF True esc single "1.prems"] True esc single show ?thesis
          by (simp add: width_loop.simps [of _ t i n])
      qed
    next
      case glyph: False
      from "1.IH"(3) [OF True glyph "1.prems"] True glyph adv show ?thesis
        by (simp add: width_loop.simps [of _ t i n])
    qed
  qed
qed

lemma wrap_loop_cong:
  "\<forall>c\<in>set t. char_adv f1 c = char_adv f2 c \<Longrightarrow>
   wrap_loop f1 t width i n ls = wrap_loop f2 t width i n ls"
proof (induction f1 t width i n ls rule: wrap_loop.induct)
  case (1 f1 t width i n ls)
  show ?case
  proof (cases "text_at t i = NL \<or> text_at t i = NUL")
    case True
    then show ?thesis by (simp add: wrap_loop_stop)
  next
    case False
    then have go: "text_at t i \<noteq> NL \<and> text_at t i \<noteq> NUL" by simp
    then have adv: "char_adv f1 (text_at t i) = char_adv f2 (text_at t i)"
      using "1.prems" text_at_in_set by blast
    show ?thesis
    proof (cases "text_at t i = TAB")
      case True
      from "1.IH"(1) [OF go True "1.prems"] True show ?thesis
        by (simp add: wrap_loop_tab)
    next
      case notab: False
      show ?thesis
      proof (cases "text_at t i = ESC")
        case esc: True
        show ?thesis
        proof (cases "text_at t (i + 1) \<noteq> NUL")
          case pair: True
          from "1.IH"(2) [OF go notab esc pair "1.prems"] esc pair show ?thesis
            by (simp add: wrap_loop_esc_pair)
        next
          case single: False
          from "1.IH"(3) [OF go notab esc single "1.prems"] esc single show ?thesis
            by (simp add: wrap_loop_esc_last)
        qed
      next
        case glyph: False
        show ?thesis
        proof (cases "width < n + char_adv f1 (text_at t i)")
          case True
          with go notab glyph adv show ?thesis by (simp add: wrap_loop_glyph)
        next
          case fits: False
          from "1.IH"(4) [OF go notab glyph refl refl fits "1.prems"] go notab glyph adv fits
          show ?thesis by (simp add: wrap_loop_glyph)
        qed
      qed
    qed
  qed
qed

lemma of_char_bounds: "0 \<le> (of_char c :: int) \<and> (of_char c :: int) < 256"
proof
  have "int (of_char c) = of_char c" by (rule of_nat_of_char)
  then show "0 \<le> (of_char c :: int)" by (metis of_nat_0_le_iff)
  have "(of_char c :: int) mod 256 = of_char c" by simp
  then show "(of_char c :: int) < 256"
    using pos_mod_bound [of 256 "of_char c :: int"] by simp
qed

lemma char_index_range:
  "(of_char c :: int) < 128 \<Longrightarrow> 0 \<le> char_index c \<and> char_index c \<le> 127"
  using of_char_bounds [of c] by (simp add: char_index_def Let_def)

lemma char_index_neg:
  "128 \<le> (of_char c :: int) \<Longrightarrow> - 128 \<le> char_index c \<and> char_index c < 0"
  using of_char_bounds [of c] by (simp add: char_index_def Let_def)

section \<open>The value returned by the truncating and the centred draw\<close>

lemma gl_printMaxRaw_returns_0:
  "fst (gl_printMaxRaw scr pal gl_defFont s0 ft_font mx x y c t gl) = 0"
  by (simp add: gl_printMaxRaw_def Let_def)

lemma gl_printMidRaw_returns_0:
  "fst (gl_printMidRaw scr pal gl_defFont s0 n0 ft_font width x y c t gl) = 0"
  by (simp add: gl_printMidRaw_def Let_def split: prod.splits)

section \<open>The row estimate of the atlas\<close>

lemma ceil_sqrt_from_spec:
  "0 < mh \<Longrightarrow> 0 \<le> k \<Longrightarrow> (\<forall>j. 0 \<le> j \<and> j < k \<longrightarrow> j * j * mh < tw) \<Longrightarrow>
   k \<le> ceil_sqrt_from tw mh k \<and> tw \<le> ceil_sqrt_from tw mh k * ceil_sqrt_from tw mh k * mh \<and>
   (\<forall>j. 0 \<le> j \<and> j < ceil_sqrt_from tw mh k \<longrightarrow> j * j * mh < tw)"
proof (induction tw mh k rule: ceil_sqrt_from.induct)
  case (1 tw mh k)
  show ?case
  proof (cases "k * k * mh < tw")
    case True
    have run: "ceil_sqrt_from tw mh k = ceil_sqrt_from tw mh (k + 1)"
      using True "1.prems" by (subst ceil_sqrt_from.simps) simp
    have inv: "\<forall>j. 0 \<le> j \<and> j < k + 1 \<longrightarrow> j * j * mh < tw"
    proof (intro allI impI)
      fix j assume j: "0 \<le> j \<and> j < k + 1"
      show "j * j * mh < tw"
      proof (cases "j = k")
        case True
        with \<open>k * k * mh < tw\<close> show ?thesis by simp
      next
        case False
        with j have "0 \<le> j \<and> j < k" by simp
        with "1.prems"(3) show ?thesis by blast
      qed
    qed
    have "0 < mh \<and> 0 \<le> k \<and> k * k * mh < tw" using True "1.prems" by simp
    from "1.IH" [OF this "1.prems"(1) _ inv] "1.prems"(2) show ?thesis
      unfolding run by simp
  next
    case False
    have run: "ceil_sqrt_from tw mh k = k"
      using False by (subst ceil_sqrt_from.simps) simp
    show ?thesis unfolding run using False "1.prems" by simp
  qed
qed

lemma atlas_rows_ceil_sqrt:
  assumes "0 < max_h" and "0 \<le> total_w"
  shows "atlas_rows total_w max_h = Some \<lceil>sqrt (real_of_int total_w / real_of_int max_h)\<rceil>"
proof -
  let ?n = "ceil_sqrt_from total_w max_h 0"
  let ?x = "real_of_int total_w / real_of_int max_h"
  from ceil_sqrt_from_spec [OF assms(1), of 0 total_w]
  have n0: "0 \<le> ?n" and up: "total_w \<le> ?n * ?n * max_h"
    and low: "\<forall>j. 0 \<le> j \<and> j < ?n \<longrightarrow> j * j * max_h < total_w"
    by simp_all
  have pos: "0 < real_of_int max_h" using assms(1) by simp
  have "real_of_int total_w \<le> real_of_int (?n * ?n * max_h)"
    using up by (simp only: of_int_le_iff)
  then have "?x \<le> (real_of_int ?n)\<^sup>2"
    using pos by (simp add: pos_divide_le_eq power2_eq_square)
  then have le: "sqrt ?x \<le> real_of_int ?n"
    using n0 by (intro real_le_lsqrt) simp_all
  have gt: "real_of_int ?n - 1 < sqrt ?x"
  proof (cases "?n = 0")
    case True
    have "0 \<le> ?x" using assms by simp
    then have "0 \<le> sqrt ?x" by (simp only: real_sqrt_ge_zero)
    then have "- 1 < sqrt ?x" by linarith
    with True show ?thesis by simp
  next
    case False
    with n0 have "0 \<le> ?n - 1 \<and> ?n - 1 < ?n" by simp
    with low have "(?n - 1) * (?n - 1) * max_h < total_w" by blast
    then have "real_of_int ((?n - 1) * (?n - 1) * max_h) < real_of_int total_w"
      by (simp only: of_int_less_iff)
    then have "(real_of_int ?n - 1)\<^sup>2 < ?x"
      using pos by (simp add: pos_less_divide_eq power2_eq_square)
    then show ?thesis by (rule real_less_rsqrt)
  qed
  have "\<lceil>sqrt ?x\<rceil> = ?n"
    using le gt by (intro ceiling_unique) simp_all
  then show ?thesis using assms by (simp add: atlas_rows_def)
qed

lemma ceil_sqrt_from_pos:
  assumes "0 < max_h" and "0 < total_w"
  shows "0 < ceil_sqrt_from total_w max_h 0"
proof (rule ccontr)
  assume "\<not> 0 < ceil_sqrt_from total_w max_h 0"
  moreover from ceil_sqrt_from_spec [OF assms(1), of 0 total_w]
  have "0 \<le> ceil_sqrt_from total_w max_h 0"
    and up: "total_w \<le> ceil_sqrt_from total_w max_h 0 * ceil_sqrt_from total_w max_h 0 * max_h"
    by simp_all
  ultimately have "ceil_sqrt_from total_w max_h 0 = 0" by simp
  with up assms(2) show False by simp
qed

lemma font_genTextureAtlas_size_initial:
  assumes "atlas_totals cs = (total_w, total_h, total_A, max_h)" and "0 < max_h" and "0 < total_w"
  shows "\<exists>h2. font_genTextureAtlas_size False gl_pot cs =
      Some (\<lceil>sqrt (real_of_int total_w / real_of_int max_h)\<rceil>,
            total_w div \<lceil>sqrt (real_of_int total_w / real_of_int max_h)\<rceil> + 1,
            h2)"
proof -
  let ?n = "\<lceil>sqrt (real_of_int total_w / real_of_int max_h)\<rceil>"
  have rows: "atlas_rows total_w max_h = Some ?n"
    using assms by (intro atlas_rows_ceil_sqrt) simp_all
  then have "?n = ceil_sqrt_from total_w max_h 0"
    using assms by (simp add: atlas_rows_def)
  then have "?n \<noteq> 0" using ceil_sqrt_from_pos [OF assms(2,3)] by simp
  then show ?thesis
    using assms(1) rows by (simp add: font_genTextureAtlas_size_def Let_def split: prod.splits)
qed

section \<open>The widths of plain texts and the sum of gl_printWidthRaw\<close>

lemma is_measured_plain:
  assumes "ESC \<notin> set t" and "TAB \<notin> set t" and "j < length t"
  shows "is_measured t j"
proof -
  have "t ! j \<in> set t" using assms(3) by simp
  with assms(2) have "t ! j \<noteq> TAB" by metis
  then show ?thesis
    using assms(3) by (simp add: is_measured_def measured_plain [OF assms(1)])
qed

lemma line_width_plain_Suc:
  assumes "ESC \<notin> set t" and "TAB \<notin> set t" and "j < strlen t"
  shows "line_width ft_font t (Suc j) = line_width ft_font t j + char_adv ft_font (text_at t j)"
proof -
  have len: "j < length t" using assms(3) strlen_le_length [of t] by simp
  from is_measured_plain [OF assms(1,2) len] len show ?thesis
    by (simp add: line_width_Suc text_at_def)
qed

lemma line_width_0: "line_width ft_font t 0 = 0"
  by (simp add: line_width_def)

lemma width_loop_stop: "\<not> i < strlen t \<Longrightarrow> width_loop ft_font t i n = n"
  by (subst width_loop.simps) simp

lemma width_loop_esc_pair:
  "i < strlen t \<Longrightarrow> text_at t i = ESC \<Longrightarrow> text_at t (i + 1) \<noteq> NUL \<Longrightarrow>
   width_loop ft_font t i n = width_loop ft_font t (i + 3) n"
  by (subst width_loop.simps) (simp add: numeral_3_eq_3)

lemma width_loop_esc_last:
  "i < strlen t \<Longrightarrow> text_at t i = ESC \<Longrightarrow> text_at t (i + 1) = NUL \<Longrightarrow>
   width_loop ft_font t i n = width_loop ft_font t (i + 2) n"
  by (subst width_loop.simps) simp

lemma width_loop_glyph:
  "i < strlen t \<Longrightarrow> text_at t i \<noteq> ESC \<Longrightarrow>
   width_loop ft_font t i n = width_loop ft_font t (i + 1) (n + char_adv ft_font (text_at t i))"
  by (subst width_loop.simps) simp

lemma width_loop_counted:
  "width_loop ft_font t i n =
   n + (\<Sum>c\<leftarrow>counted (drop i (take (strlen t) t)). char_adv ft_font c)"
proof (induction ft_font t i n rule: width_loop.induct)
  case (1 ft_font t i n)
  let ?s = "take (strlen t) t"
  have ls: "length ?s = strlen t" using strlen_le_length [of t] by simp
  show ?case
  proof (cases "i < strlen t")
    case False
    then show ?thesis using ls by (simp add: width_loop_stop)
  next
    case True
    then have "i < length ?s" using ls by simp
    then have "drop i ?s = ?s ! i # drop (Suc i) ?s" by (rule Cons_nth_drop_Suc [symmetric])
    moreover have "?s ! i = text_at t i"
      using True strlen_le_length [of t] by (simp add: text_at_def)
    ultimately have hd: "drop i ?s = text_at t i # drop (Suc i) ?s" by simp
    show ?thesis
    proof (cases "text_at t i = ESC")
      case esc: True
      show ?thesis
      proof (cases "text_at t (i + 1) \<noteq> NUL")
        case pair: True
        have "counted (drop i ?s) = counted (drop (i + 2 + 1) ?s)"
          using esc by (simp add: hd add.commute)
        with "1.IH"(1) [OF True esc pair] True esc pair show ?thesis
          by (simp add: width_loop_esc_pair numeral_3_eq_3)
      next
        case single: False
        then have "Suc i = strlen t"
          using strlen_stop [of "Suc i" t] True by simp
        then have "drop (Suc i) ?s = []" and "drop (i + 1 + 1) ?s = []" using ls by simp_all
        then have "counted (drop i ?s) = counted (drop (i + 1 + 1) ?s)"
          using esc by (simp add: hd)
        with "1.IH"(2) [OF True esc single] True esc single show ?thesis
          by (simp add: width_loop_esc_last)
      qed
    next
      case glyph: False
      have "counted (drop i ?s) = text_at t i # counted (drop (i + 1) ?s)"
        using glyph by (simp add: hd)
      with "1.IH"(3) [OF True glyph] True glyph show ?thesis
        by (simp add: width_loop_glyph)
    qed
  qed
qed

lemma counted_plain: "ESC \<notin> set s \<Longrightarrow> counted s = s"
  by (induction s) auto

lemma layout_frame:
  assumes "\<forall>c\<in>set t. chars f1 (char_index c) = chars f2 (char_index c)"
  shows "font_limitSize f1 w (Some t) mx = font_limitSize f2 w (Some t) mx \<and>
      gl_printWidthRaw d (Some f1) t = gl_printWidthRaw d (Some f2) t \<and>
      gl_printWidthForText d (Some f1) t width = gl_printWidthForText d (Some f2) t width"
proof -
  from assms have adv: "\<forall>c\<in>set t. char_adv f1 c = char_adv f2 c"
    by (simp add: char_adv_def)
  show ?thesis
    using limit_loop_cong [OF adv] width_loop_cong [OF adv] wrap_loop_cong [OF adv]
    by (simp add: font_limitSize_def gl_printWidthRaw_def gl_printWidthForText_def
        font_or_default_def)
qed

lemma char_index_low:
  "(of_char c :: int) < 128 \<Longrightarrow> char_index c = of_char c"
  by (simp add: char_index_def Let_def)

lemma char_index_high:
  "128 \<le> (of_char c :: int) \<Longrightarrow> char_index c = of_char c - 256"
  by (simp add: char_index_def Let_def)

section \<open>The claims\<close>

text \<open>
  C10. With a NULL text pointer, \<^verbatim>\<open>font_limitSize\<close> returns the count 0 at once: the
  result does not depend on any text byte, and the content of the width out-parameter
  after the call is its content before the call.
\<close>

theorem font_limitSize_null_text:
  "font_limitSize ft_font width None mx = (0, width)"
  by (simp add: font_limitSize_def)

text \<open>
  C9. The character count returned by \<^verbatim>\<open>font_limitSize\<close> is monotonic in the pixel
  budget, for every font and text (NULL included) and whatever the width out-parameter.
\<close>

theorem font_limitSize_monotonic:
  "W1 \<le> W2 \<Longrightarrow>
   fst (font_limitSize ft_font width1 t W1) \<le> fst (font_limitSize ft_font width2 t W2)"
proof (cases t)
  case None
  then show ?thesis by (simp add: font_limitSize_def)
next
  case (Some s)
  assume "W1 \<le> W2"
  from limit_loop_mono [OF this, of ft_font s 0 0] Some show ?thesis
    by (auto simp: font_limitSize_def split: prod.splits)
qed

theorem font_limitSize_monotonic_witness:
  "(25::int) \<le> 40 \<and>
   fst (font_limitSize test_font None (Some ''abc def'') 25) = 2 \<and>
   fst (font_limitSize test_font None (Some ''abc def'') 40) = 4 \<and>
   fst (font_limitSize test_font None (Some ''abc def'') 25)
     \<le> fst (font_limitSize test_font None (Some ''abc def'') 40)"
proof -
  have le: "(25::int) \<le> 40" by simp
  have a: "fst (font_limitSize test_font None (Some ''abc def'') 25) = 2"
    by (simp add: font_limitSize_def limit_loop.simps text_at_def char_adv_def
        char_index_def test_font_def)
  have b: "fst (font_limitSize test_font None (Some ''abc def'') 40) = 4"
    by (simp add: font_limitSize_def limit_loop.simps text_at_def char_adv_def
        char_index_def test_font_def)
  show ?thesis
    using le a b font_limitSize_monotonic [OF le, of test_font None "Some ''abc def''" None]
    by simp
qed

text \<open>
  C6 (as amended). For a text without escape markers and tabs, \<^verbatim>\<open>font_limitSize\<close>
  accumulates the advances in order and stops before the first byte whose advance takes
  the accumulated width over the budget: the count is the length of the prefix before
  that byte, every non-empty prefix up to it fits, the reported width is the width of
  that prefix, and the byte that overflows is counted in neither. When the advances of
  the text's bytes are not negative and the budget is not negative, this prefix is the
  longest one whose width is at most the budget. The empty text gives count 0 and
  width 0, for every font and budget.
\<close>

theorem font_limitSize_greedy:
  "ESC \<notin> set t \<Longrightarrow> TAB \<notin> set t \<Longrightarrow>
   font_limitSize ft_font width (Some t) mx = (count, wd) \<Longrightarrow>
   count \<le> strlen t \<and>
   wd = (case width of None \<Rightarrow> None | Some _ \<Rightarrow> Some (line_width ft_font t count)) \<and>
   (\<forall>k. 0 < k \<and> k \<le> count \<longrightarrow> line_width ft_font t k \<le> mx) \<and>
   (count < strlen t \<longrightarrow> mx < line_width ft_font t (Suc count)) \<and>
   ((\<forall>c\<in>set t. 0 \<le> char_adv ft_font c) \<and> 0 \<le> mx \<longrightarrow>
      line_width ft_font t count \<le> mx \<and>
      (\<forall>k. k \<le> strlen t \<and> line_width ft_font t k \<le> mx \<longrightarrow> k \<le> count)) \<and>
   font_limitSize ft_font (Some w0) (Some []) mx = (0, Some 0)"
proof -
  assume noesc: "ESC \<notin> set t" and notab: "TAB \<notin> set t"
    and run: "font_limitSize ft_font width (Some t) mx = (count, wd)"
  let ?W = "line_width ft_font t"
  obtain n where loop: "limit_loop ft_font t mx 0 0 = (count, n)"
    and wd: "wd = (case width of None \<Rightarrow> None | Some _ \<Rightarrow> Some n)"
    using run by (auto simp: font_limitSize_def split: prod.splits)
  have step: "\<forall>j<strlen t. ?W (Suc j) = ?W j + char_adv ft_font (text_at t j)"
    using line_width_plain_Suc [OF noesc notab] by blast
  have spec: "count \<le> strlen t \<and> n = ?W count \<and>
      (\<forall>k. 0 < k \<and> k \<le> count \<longrightarrow> ?W k \<le> mx) \<and>
      (count < strlen t \<longrightarrow> mx < ?W (Suc count))"
    by (rule limit_loop_spec [OF loop step]) (simp_all add: line_width_0)
  have longest: "?W count \<le> mx \<and> (\<forall>k. k \<le> strlen t \<and> ?W k \<le> mx \<longrightarrow> k \<le> count)"
    if nonneg: "\<forall>c\<in>set t. 0 \<le> char_adv ft_font c" and budget: "0 \<le> mx"
  proof
    show "?W count \<le> mx"
      using spec budget by (cases "count = 0") (simp_all add: line_width_0)
    have up: "\<forall>j<strlen t. ?W j \<le> ?W (Suc j)"
    proof (intro allI impI)
      fix j assume j: "j < strlen t"
      then have "text_at t j \<in> set t"
        using strlen_le_length [of t] by (simp add: text_at_def)
      with nonneg have "0 \<le> char_adv ft_font (text_at t j)" by blast
      with step j show "?W j \<le> ?W (Suc j)" by simp
    qed
    show "\<forall>k. k \<le> strlen t \<and> ?W k \<le> mx \<longrightarrow> k \<le> count"
    proof (intro allI impI, rule ccontr)
      fix k assume k: "k \<le> strlen t \<and> ?W k \<le> mx" and "\<not> k \<le> count"
      then have "Suc count \<le> k" and "count < strlen t" by simp_all
      then have "mx < ?W (Suc count)" and "?W (Suc count) \<le> ?W k"
        using spec width_mono [OF up, of k "Suc count"] k by simp_all
      with k show False by simp
    qed
  qed
  have empty: "font_limitSize ft_font (Some w0) (Some []) mx = (0, Some 0)"
    by (simp add: font_limitSize_def limit_loop.simps text_at_def)
  have wd': "wd = (case width of None \<Rightarrow> None | Some _ \<Rightarrow> Some (?W count))"
    using wd spec by (cases width) simp_all
  show ?thesis using spec wd' longest empty by simp
qed

theorem font_limitSize_greedy_witness:
  "ESC \<notin> set ''abc'' \<and> TAB \<notin> set ''abc'' \<and>
   font_limitSize test_font (Some 0) (Some ''abc'') 25 = (2, Some 20) \<and>
   (2::nat) \<le> strlen ''abc'' \<and>
   line_width test_font ''abc'' 2 = 20 \<and>
   line_width test_font ''abc'' 1 \<le> 25 \<and>
   25 < line_width test_font ''abc'' 3 \<and>
   list_all (\<lambda>c. 0 \<le> char_adv test_font c) ''abc'' \<and>
   font_limitSize test_font (Some 7) (Some []) 25 = (0, Some 0)"
proof -
  have ne: "ESC \<notin> set ''abc''" and nt: "TAB \<notin> set ''abc''" by simp_all
  have run: "font_limitSize test_font (Some 0) (Some ''abc'') 25 = (2, Some 20)"
    by code_simp
  have len: "strlen ''abc'' = 3"
    by (simp add: strlen_def)
  have nonneg: "list_all (\<lambda>c. 0 \<le> char_adv test_font c) ''abc''"
    by (simp add: char_adv_def char_index_def test_font_def)
  have one: "(0::nat) < 1 \<and> (1::nat) \<le> 2" by simp
  show ?thesis
    using font_limitSize_greedy [OF ne nt run, of 7] ne nt run len nonneg one by auto
qed

text \<open>
  C6 as stated fails. With the budget -1 the text "a" gives count 0 and width 0, which
  is not at most the budget. With the advance -10 for the letter b, the text "ab" and
  the budget 5 give count 0, while the prefix of length 2 has the width 0. For the
  escape marker followed by "rab", and for a tab followed by "ab", the budget 25 gives
  count 2, while under the layout rules the whole text has the width 20.
\<close>

theorem font_limitSize_greedy_counterexample:
  "font_limitSize test_font (Some 5) (Some ''a'') (- 1) = (0, Some 0) \<and>
   \<not> line_width test_font ''a'' 0 \<le> - 1 \<and>
   font_limitSize neg_font (Some 5) (Some ''ab'') 5 = (0, Some 0) \<and>
   line_width neg_font ''ab'' 2 \<le> 5 \<and>
   (2::nat) \<le> strlen ''ab'' \<and>
   font_limitSize test_font (Some 5) (Some (ESC # ''rab'')) 25 = (2, Some 20) \<and>
   line_width test_font (ESC # ''rab'') 4 \<le> 25 \<and>
   (4::nat) \<le> strlen (ESC # ''rab'') \<and>
   font_limitSize test_font (Some 5) (Some (TAB # ''ab'')) 25 = (2, Some 20) \<and>
   line_width test_font (TAB # ''ab'') 3 \<le> 25 \<and>
   (3::nat) \<le> strlen (TAB # ''ab'')"
  by code_simp

text \<open>
  C5 (as amended). \<^verbatim>\<open>gl_printWidthForText\<close> scans to the first newline or terminator
  that is not the second byte of an escape sequence (\<open>line_end\<close>), adding the advance of
  every measured byte; tabs and escape sequences are skipped and add nothing. When no
  measured byte takes the accumulated width over the budget, it returns that end index.
  Otherwise it returns, at the first measured byte \<open>k\<close> that does, the index of the last
  measured space at or before \<open>k\<close>, and 0 when there is none. In a text without escape
  markers the end index is the index of the first newline or terminator and the measured
  bytes are the bytes other than tabs. With advance 10 for letters and 5 for the space,
  the text "abc def" and the budget 25 give 0 (the width passes 25 at the letter c, before
  any space is seen); the budget 40 gives 3.
\<close>

theorem gl_printWidthForText_wrap:
  "((\<forall>k<line_end t. is_measured t k \<longrightarrow>
        line_width (font_or_default gl_defFont ft_font) t (Suc k) \<le> width) \<longrightarrow>
      gl_printWidthForText gl_defFont ft_font t width = line_end t) \<and>
   (\<forall>k. overflows_at (font_or_default gl_defFont ft_font) t width k \<longrightarrow>
      gl_printWidthForText gl_defFont ft_font t width = last_space t (Suc k)) \<and>
   ((\<exists>k<line_end t. is_measured t k \<and>
        width < line_width (font_or_default gl_defFont ft_font) t (Suc k)) \<longrightarrow>
      (\<exists>k. overflows_at (font_or_default gl_defFont ft_font) t width k)) \<and>
   (\<forall>k. is_measured t k \<longrightarrow> t ! k \<noteq> TAB \<and> t ! k \<noteq> ESC) \<and>
   (ESC \<notin> set t \<longrightarrow>
      line_end t = length (takeWhile (\<lambda>c. c \<noteq> NL \<and> c \<noteq> NUL) t) \<and>
      (\<forall>k<length t. is_measured t k = (t ! k \<noteq> TAB))) \<and>
   gl_printWidthForText test_font None ''abc def'' 25 = 0 \<and>
   gl_printWidthForText test_font None ''abc def'' 40 = 3"
proof -
  let ?ft = "font_or_default gl_defFont ft_font"
  have inv: "((\<forall>k<line_end t. is_measured t k \<longrightarrow> line_width ?ft t (Suc k) \<le> width) \<longrightarrow>
        wrap_loop ?ft t width 0 0 0 = line_end t) \<and>
      (\<forall>k. overflows_at ?ft t width k \<longrightarrow> wrap_loop ?ft t width 0 0 0 = last_space t (Suc k))"
    by (rule wrap_loop_inv [OF boundary_0])
       (simp_all add: line_width_def last_space_def)
  have first: "\<exists>k. overflows_at ?ft t width k"
    if "\<exists>k<line_end t. is_measured t k \<and> width < line_width ?ft t (Suc k)"
    using that by (rule first_overflow_exists)
  have skipped: "\<forall>k. is_measured t k \<longrightarrow> t ! k \<noteq> TAB \<and> t ! k \<noteq> ESC"
    using measured_not_skipped [of _ t] by (simp add: is_measured_def)
  have plain: "line_end t = length (takeWhile (\<lambda>c. c \<noteq> NL \<and> c \<noteq> NUL) t) \<and>
      (\<forall>k<length t. is_measured t k = (t ! k \<noteq> TAB))" if "ESC \<notin> set t"
    using line_end_plain [OF that] measured_plain [OF that] by (simp add: is_measured_def)
  have e1: "gl_printWidthForText test_font None ''abc def'' 25 = 0"
    by (simp add: gl_printWidthForText_def font_or_default_def wrap_loop.simps text_at_def
        char_adv_def char_index_def test_font_def)
  have e2: "gl_printWidthForText test_font None ''abc def'' 40 = 3"
    by (simp add: gl_printWidthForText_def font_or_default_def wrap_loop.simps text_at_def
        char_adv_def char_index_def test_font_def)
  show ?thesis
    using inv first skipped plain e1 e2 unfolding gl_printWidthForText_def by blast
qed

theorem gl_printWidthForText_wrap_witness:
  "overflows_at test_font ''ab cd ef'' 52 6 \<and>
   last_space ''ab cd ef'' 7 = 5 \<and>
   gl_printWidthForText test_font None ''ab cd ef'' 52 = 5 \<and>
   line_end ''ab cd ef'' = 8 \<and>
   list_all (\<lambda>k. is_measured ''ab cd ef'' k \<longrightarrow> line_width test_font ''ab cd ef'' (Suc k) \<le> 70)
     [0..<8] \<and>
   gl_printWidthForText test_font None ''ab cd ef'' 70 = 8 \<and>
   is_measured ''ab cd ef'' 2 \<and> ''ab cd ef'' ! 2 \<noteq> TAB \<and>
   ESC \<notin> set ''ab cd ef'' \<and>
   length (takeWhile (\<lambda>c. c \<noteq> NL \<and> c \<noteq> NUL) ''ab cd ef'') = 8"
proof -
  have ov: "overflows_at test_font ''ab cd ef'' 52 6" by code_simp
  have ls: "last_space ''ab cd ef'' 7 = 5" by code_simp
  have le: "line_end ''ab cd ef'' = 8" by code_simp
  have all: "list_all (\<lambda>k. is_measured ''ab cd ef'' k \<longrightarrow>
      line_width test_font ''ab cd ef'' (Suc k) \<le> 70) [0..<8]" by code_simp
  then have fits: "\<forall>k<line_end ''ab cd ef''. is_measured ''ab cd ef'' k \<longrightarrow>
      line_width test_font ''ab cd ef'' (Suc k) \<le> 70"
    unfolding le by (simp add: list_all_iff)
  have m: "is_measured ''ab cd ef'' 2" by code_simp
  have ne: "ESC \<notin> set ''ab cd ef''" by simp
  have fd: "font_or_default test_font None = test_font" by (simp add: font_or_default_def)
  show ?thesis
    using gl_printWidthForText_wrap [of "''ab cd ef''" test_font None 52]
      gl_printWidthForText_wrap [of "''ab cd ef''" test_font None 70]
      ov ls le all fits m ne unfolding fd
    by (simp del: upt_Suc)
qed

text \<open>
  C5 as stated fails at its own example: with the budget 25 the result is not 3.
\<close>

theorem gl_printWidthForText_example_counterexample:
  "gl_printWidthForText test_font (Some test_font) ''abc def'' 25 \<noteq> 3"
  by (simp add: gl_printWidthForText_def font_or_default_def wrap_loop.simps text_at_def
      char_adv_def char_index_def test_font_def)

text \<open>
  C3 (as amended). For a non-empty text \<^verbatim>\<open>gl_printHeightRaw\<close> returns
  \<open>1.5 \<times> h \<times> lines - 0.5 \<times> h\<close> truncated to an integer, where \<open>lines\<close> (at least 1) is
  the number of applications of \<^verbatim>\<open>gl_printWidthForText\<close> until the terminator is
  consumed: the last line counts with the height \<open>h\<close>, every other line with \<open>1.5 \<times> h\<close>.
  For a non-negative \<open>h\<close> this is \<open>((3 \<times> lines - 1) \<times> h) div 2\<close>. For the empty text it
  returns 0.
\<close>

theorem gl_printHeightRaw_lines:
  "gl_printHeightRaw gl_defFont ft_font width t =
     (if text_at t 0 = NUL then 0
      else c_trunc (1.5 * of_int (h (font_or_default gl_defFont ft_font)) *
             of_nat (line_count gl_defFont (font_or_default gl_defFont ft_font) t width 0)
           - 0.5 * of_int (h (font_or_default gl_defFont ft_font)))) \<and>
   1 \<le> line_count gl_defFont (font_or_default gl_defFont ft_font) t width 0 \<and>
   (0 \<le> h (font_or_default gl_defFont ft_font) \<and> text_at t 0 \<noteq> NUL \<longrightarrow>
      gl_printHeightRaw gl_defFont ft_font width t =
        ((3 * int (line_count gl_defFont (font_or_default gl_defFont ft_font) t width 0) - 1) *
           h (font_or_default gl_defFont ft_font)) div 2) \<and>
   gl_printHeightRaw gl_defFont ft_font width [] = 0"
proof -
  let ?ft = "font_or_default gl_defFont ft_font"
  let ?k = "line_count gl_defFont ?ft t width 0"
  have a: "gl_printHeightRaw gl_defFont ft_font width t =
     (if text_at t 0 = NUL then 0
      else c_trunc (1.5 * of_int (h ?ft) * of_nat ?k - 0.5 * of_int (h ?ft)))"
    by (simp add: gl_printHeightRaw_def Let_def height_loop_lines)
  have pos: "1 \<le> ?k" by (rule line_count_pos)
  have b: "c_trunc (1.5 * of_int (h ?ft) * of_nat ?k - 0.5 * of_int (h ?ft)) =
      ((3 * int ?k - 1) * h ?ft) div 2" if "0 \<le> h ?ft"
  proof -
    have nonneg: "0 \<le> (3 * int ?k - 1) * h ?ft" using that pos by simp
    have eq: "(1.5::rat) * of_int (h ?ft) * of_nat ?k - 0.5 * of_int (h ?ft) =
        of_int ((3 * int ?k - 1) * h ?ft) / 2"
      by (simp add: field_simps)
    show ?thesis unfolding eq by (rule c_trunc_half [OF nonneg])
  qed
  have e: "gl_printHeightRaw gl_defFont ft_font width [] = 0"
    by (simp add: gl_printHeightRaw_def text_at_def)
  show ?thesis using a pos b e by simp
qed

theorem gl_printHeightRaw_lines_witness:
  "(0::int) \<le> h (font_or_default test_font None) \<and> text_at ''abc def'' 0 \<noteq> NUL \<and>
   line_count test_font test_font ''abc def'' 25 0 = 4 \<and>
   gl_printHeightRaw test_font None 25 ''abc def'' = ((3 * 4 - 1) * 10) div 2 \<and>
   gl_printHeightRaw test_font None 25 ''abc def'' = 55"
proof -
  have fd: "font_or_default test_font None = test_font" by (simp add: font_or_default_def)
  have hh: "h test_font = 10" by (simp add: test_font_def)
  have ne: "text_at ''abc def'' 0 \<noteq> NUL" by (simp add: text_at_def)
  have lc: "line_count test_font test_font ''abc def'' 25 0 = 4" by code_simp
  show ?thesis
    using gl_printHeightRaw_lines [of test_font None 25 "''abc def''"] ne lc
    unfolding fd hh by simp
qed

text \<open>
  C3 as stated fails: for the one-line text "a" and \<open>h = 10\<close> the claim's value is
  \<open>1.5 \<times> 10 \<times> 1 = 15\<close>, and the function returns 10.
\<close>

theorem gl_printHeightRaw_counterexample:
  "rat_of_int (gl_printHeightRaw test_font None 100 ''a'') \<noteq>
     1.5 * of_int (h test_font) * of_nat (line_count test_font test_font ''a'' 100 0)"
proof -
  have "gl_printHeightRaw test_font None 100 ''a'' = 10" by code_simp
  moreover have "line_count test_font test_font ''a'' 100 0 = 1" by code_simp
  ultimately show ?thesis by (simp add: test_font_def)
qed

text \<open>
  C2 (failing input). With advance 10 for every letter, \<^verbatim>\<open>gl_printWidthRaw\<close> gives 10 for
  the escape marker followed by "rab" and 20 for "ab": after the two bytes of the escape
  sequence the loop's own increment skips the letter a as well. \<^verbatim>\<open>font_limitSize\<close> has
  no escape branch and adds the advances of the marker and of the directive byte: it
  reports the width 40 for the first text and 20 for the second.
\<close>

theorem escape_width_failing_input:
  "gl_printWidthRaw test_font None (ESC # ''rab'') = 10 \<and>
   gl_printWidthRaw test_font None ''ab'' = 20 \<and>
   font_limitSize test_font (Some 0) (Some (ESC # ''rab'')) 100 = (4, Some 40) \<and>
   font_limitSize test_font (Some 0) (Some ''ab'') 100 = (2, Some 20)"
  by (simp add: gl_printWidthRaw_def font_or_default_def width_loop.simps strlen_def
      font_limitSize_def limit_loop.simps text_at_def char_adv_def char_index_def test_font_def)

text \<open>
  C4 (as amended). No layout operation checks the range of a byte, and none has an
  error result: for every byte it counts, whatever its value, it adds the advance
  \<^verbatim>\<open>ft_font->chars[ (int)text[i] ].adv_x\<close>. \<^verbatim>\<open>font_limitSize\<close> counts every byte up to the
  first one that takes the sum over the budget, \<^verbatim>\<open>gl_printWidthRaw\<close> every byte before
  the terminator that its escape branch does not pass over, \<^verbatim>\<open>gl_printWidthForText\<close>
  every measured byte up to the first one that takes the sum over the budget. The index
  \<^verbatim>\<open>(int)text[i]\<close> of a byte in 0..127 is the byte, one of the 128 entries of the glyph
  table; the index of a byte in 128..255 is the byte minus 256, a negative index outside
  the table. For a text whose bytes are all in 0..127 the results depend on the entries
  0..127 alone.
\<close>

theorem layout_indexes_table_unchecked:
  "(font_limitSize ft_font w (Some t) mx = (count, wd) \<longrightarrow>
      count \<le> strlen t \<and>
      wd = (case w of None \<Rightarrow> None
            | Some _ \<Rightarrow> Some (\<Sum>c\<leftarrow>take count t. char_adv ft_font c)) \<and>
      (\<forall>k. 0 < k \<and> k \<le> count \<longrightarrow> (\<Sum>c\<leftarrow>take k t. char_adv ft_font c) \<le> mx) \<and>
      (count < strlen t \<longrightarrow> mx < (\<Sum>c\<leftarrow>take (Suc count) t. char_adv ft_font c))) \<and>
   gl_printWidthRaw d (Some ft_font) t
     = (\<Sum>c\<leftarrow>counted (take (strlen t) t). char_adv ft_font c) \<and>
   (ESC \<notin> set t \<longrightarrow> counted (take (strlen t) t) = take (strlen t) t) \<and>
   ((\<forall>k<line_end t. is_measured t k \<longrightarrow> line_width ft_font t (Suc k) \<le> width) \<longrightarrow>
      gl_printWidthForText d (Some ft_font) t width = line_end t) \<and>
   (\<forall>k. overflows_at ft_font t width k \<longrightarrow>
      gl_printWidthForText d (Some ft_font) t width = last_space t (Suc k)) \<and>
   (ESC \<notin> set t \<longrightarrow> (\<forall>k<length t. is_measured t k = (t ! k \<noteq> TAB))) \<and>
   (\<forall>c. char_adv ft_font c = adv_x (chars ft_font (char_index c))) \<and>
   (\<forall>c. (of_char c :: int) < 128 \<longrightarrow>
      char_index c = of_char c \<and> 0 \<le> char_index c \<and> char_index c \<le> 127) \<and>
   (\<forall>c. 128 \<le> (of_char c :: int) \<longrightarrow>
      char_index c = of_char c - 256 \<and> - 128 \<le> char_index c \<and> char_index c < 0) \<and>
   ((\<forall>c\<in>set t. (of_char c :: int) < 128) \<and>
    (\<forall>i. 0 \<le> i \<and> i \<le> 127 \<longrightarrow> chars ft_font i = chars f2 i) \<longrightarrow>
      font_limitSize ft_font w (Some t) mx = font_limitSize f2 w (Some t) mx \<and>
      gl_printWidthRaw d (Some ft_font) t = gl_printWidthRaw d (Some f2) t \<and>
      gl_printWidthForText d (Some ft_font) t width = gl_printWidthForText d (Some f2) t width)"
proof -
  let ?S = "\<lambda>k. \<Sum>c\<leftarrow>take k t. char_adv ft_font c"
  have limit: "count \<le> strlen t \<and>
      wd = (case w of None \<Rightarrow> None | Some _ \<Rightarrow> Some (?S count)) \<and>
      (\<forall>k. 0 < k \<and> k \<le> count \<longrightarrow> ?S k \<le> mx) \<and>
      (count < strlen t \<longrightarrow> mx < ?S (Suc count))"
    if run: "font_limitSize ft_font w (Some t) mx = (count, wd)"
  proof -
    obtain n where loop: "limit_loop ft_font t mx 0 0 = (count, n)"
      and wd: "wd = (case w of None \<Rightarrow> None | Some _ \<Rightarrow> Some n)"
      using run by (auto simp: font_limitSize_def split: prod.splits)
    have step: "\<forall>j<strlen t. ?S (Suc j) = ?S j + char_adv ft_font (text_at t j)"
      using take_sum_Suc by blast
    have spec: "count \<le> strlen t \<and> n = ?S count \<and>
        (\<forall>k. 0 < k \<and> k \<le> count \<longrightarrow> ?S k \<le> mx) \<and>
        (count < strlen t \<longrightarrow> mx < ?S (Suc count))"
      by (rule limit_loop_spec [OF loop step]) simp_all
    moreover have "wd = (case w of None \<Rightarrow> None | Some _ \<Rightarrow> Some (?S count))"
      using wd spec by (cases w) simp_all
    ultimately show ?thesis by simp
  qed
  have raw: "gl_printWidthRaw d (Some ft_font) t
      = (\<Sum>c\<leftarrow>counted (take (strlen t) t). char_adv ft_font c)"
    by (simp add: gl_printWidthRaw_def font_or_default_def width_loop_counted)
  have plain: "counted (take (strlen t) t) = take (strlen t) t" if "ESC \<notin> set t"
    using that by (intro counted_plain) (auto dest: in_set_takeD)
  have wrap: "((\<forall>k<line_end t. is_measured t k \<longrightarrow> line_width ft_font t (Suc k) \<le> width) \<longrightarrow>
        wrap_loop ft_font t width 0 0 0 = line_end t) \<and>
      (\<forall>k. overflows_at ft_font t width k \<longrightarrow>
        wrap_loop ft_font t width 0 0 0 = last_space t (Suc k))"
    by (rule wrap_loop_inv [OF boundary_0])
       (simp_all add: line_width_def last_space_def)
  have wrap1: "(\<forall>k<line_end t. is_measured t k \<longrightarrow> line_width ft_font t (Suc k) \<le> width) \<longrightarrow>
      gl_printWidthForText d (Some ft_font) t width = line_end t"
    using wrap by (simp add: gl_printWidthForText_def font_or_default_def)
  have wrap2: "\<forall>k. overflows_at ft_font t width k \<longrightarrow>
      gl_printWidthForText d (Some ft_font) t width = last_space t (Suc k)"
    using wrap by (simp add: gl_printWidthForText_def font_or_default_def)
  have meas: "\<forall>k<length t. is_measured t k = (t ! k \<noteq> TAB)" if "ESC \<notin> set t"
    using measured_plain [OF that] by (simp add: is_measured_def)
  have adv: "\<forall>c. char_adv ft_font c = adv_x (chars ft_font (char_index c))"
    by (simp add: char_adv_def)
  have low: "\<forall>c. (of_char c :: int) < 128 \<longrightarrow>
      char_index c = of_char c \<and> 0 \<le> char_index c \<and> char_index c \<le> 127"
    using char_index_low char_index_range by blast
  have high: "\<forall>c. 128 \<le> (of_char c :: int) \<longrightarrow>
      char_index c = of_char c - 256 \<and> - 128 \<le> char_index c \<and> char_index c < 0"
    using char_index_high char_index_neg by blast
  have frame: "font_limitSize ft_font w (Some t) mx = font_limitSize f2 w (Some t) mx \<and>
      gl_printWidthRaw d (Some ft_font) t = gl_printWidthRaw d (Some f2) t \<and>
      gl_printWidthForText d (Some ft_font) t width = gl_printWidthForText d (Some f2) t width"
    if "(\<forall>c\<in>set t. (of_char c :: int) < 128) \<and>
        (\<forall>i. 0 \<le> i \<and> i \<le> 127 \<longrightarrow> chars ft_font i = chars f2 i)"
  proof (rule layout_frame)
    show "\<forall>c\<in>set t. chars ft_font (char_index c) = chars f2 (char_index c)"
      using that char_index_range by blast
  qed
  from limit raw plain wrap1 wrap2 meas adv low high frame show ?thesis
    by (intro conjI impI) (assumption | simp)+
qed

theorem layout_indexes_table_unchecked_witness:
  "font_limitSize leak_font (Some 0) (Some [CHR 0xC8, CHR ''a'']) 100 = (2, Some 17) \<and>
   (\<Sum>c\<leftarrow>take 2 [CHR 0xC8, CHR ''a'']. char_adv leak_font c) = 17 \<and>
   gl_printWidthRaw test_font (Some leak_font) [CHR 0xC8, CHR ''a''] = 17 \<and>
   ESC \<notin> set [CHR 0xC8, CHR ''a''] \<and>
   counted (take (strlen [CHR 0xC8, CHR ''a'']) [CHR 0xC8, CHR ''a'']) = [CHR 0xC8, CHR ''a''] \<and>
   line_end [CHR 0xC8, CHR ''a''] = 2 \<and>
   list_all (\<lambda>k. is_measured [CHR 0xC8, CHR ''a''] k \<longrightarrow>
       line_width leak_font [CHR 0xC8, CHR ''a''] (Suc k) \<le> 100) [0..<2] \<and>
   gl_printWidthForText test_font (Some leak_font) [CHR 0xC8, CHR ''a''] 100 = 2 \<and>
   overflows_at leak_font [CHR 0xC8, CHR ''a''] 8 1 \<and>
   gl_printWidthForText test_font (Some leak_font) [CHR 0xC8, CHR ''a''] 8 = 0 \<and>
   is_measured [CHR 0xC8, CHR ''a''] 0 \<and>
   char_adv leak_font (CHR 0xC8) = adv_x (chars leak_font (- 56)) \<and>
   (128::int) \<le> of_char (CHR 0xC8) \<and> char_index (CHR 0xC8) = - 56 \<and>
   (of_char (CHR ''a'') :: int) < 128 \<and> char_index (CHR ''a'') = 97 \<and>
   list_all (\<lambda>c. (of_char c :: int) < 128) ''ab c'' \<and>
   chars test_font 32 = chars leak_font 32 \<and>
   font_limitSize test_font (Some 0) (Some ''ab c'') 15
     = font_limitSize leak_font (Some 0) (Some ''ab c'') 15 \<and>
   gl_printWidthRaw test_font (Some test_font) ''ab c''
     = gl_printWidthRaw test_font (Some leak_font) ''ab c'' \<and>
   gl_printWidthForText test_font (Some test_font) ''ab c'' 15
     = gl_printWidthForText test_font (Some leak_font) ''ab c'' 15"
proof -
  let ?t = "[CHR 0xC8, CHR ''a'']"
  have run: "font_limitSize leak_font (Some 0) (Some ?t) 100 = (2, Some 17)" by code_simp
  have sum2: "(\<Sum>c\<leftarrow>take 2 ?t. char_adv leak_font c) = 17" by code_simp
  have ne: "ESC \<notin> set ?t" by simp
  have le: "line_end ?t = 2" by code_simp
  have all: "list_all (\<lambda>k. is_measured ?t k \<longrightarrow> line_width leak_font ?t (Suc k) \<le> 100) [0..<2]"
    by code_simp
  then have fits: "\<forall>k<line_end ?t. is_measured ?t k \<longrightarrow> line_width leak_font ?t (Suc k) \<le> 100"
    unfolding le by (simp add: list_all_iff)
  have ov: "overflows_at leak_font ?t 8 1" by code_simp
  have ls: "last_space ?t (Suc 1) = 0" by code_simp
  have m0: "is_measured ?t 0" by code_simp
  have hi: "(128::int) \<le> of_char (CHR 0xC8)" by simp
  have lo: "(of_char (CHR ''a'') :: int) < 128" by simp
  have cnt: "(\<Sum>c\<leftarrow>counted (take (strlen ?t) ?t). char_adv leak_font c) = 17" by code_simp
  note big = layout_indexes_table_unchecked
    [where ft_font = leak_font and w = "Some 0" and t = ?t and mx = 100 and count = 2
       and wd = "Some 17" and d = test_font and width = 100 and ?f2.0 = leak_font]
  note small = layout_indexes_table_unchecked
    [where ft_font = leak_font and w = "Some 0" and t = ?t and mx = 100 and count = 2
       and wd = "Some 17" and d = test_font and width = 8 and ?f2.0 = leak_font]
  from big have raw: "gl_printWidthRaw test_font (Some leak_font) ?t = 17"
    using cnt by simp
  from big ne have plain: "counted (take (strlen ?t) ?t) = ?t"
    by (simp add: strlen_def)
  from big fits le have w100: "gl_printWidthForText test_font (Some leak_font) ?t 100 = 2"
    by simp
  from small ov ls have w8: "gl_printWidthForText test_font (Some leak_font) ?t 8 = 0"
    by simp
  from big have adv: "char_adv leak_font (CHR 0xC8) = adv_x (chars leak_font (char_index (CHR 0xC8)))"
    by blast
  from big hi have idx: "char_index (CHR 0xC8) = of_char (CHR 0xC8) - 256" by blast
  then have idx': "char_index (CHR 0xC8) = - 56" by simp
  have adv': "char_adv leak_font (CHR 0xC8) = adv_x (chars leak_font (- 56))"
    using adv unfolding idx' .
  from big lo have "char_index (CHR ''a'') = of_char (CHR ''a'')" by blast
  then have idxa: "char_index (CHR ''a'') = 97" by simp
  have l: "list_all (\<lambda>c. (of_char c :: int) < 128) ''ab c''" by simp
  then have r: "\<forall>c\<in>set ''ab c''. (of_char c :: int) < 128"
    unfolding list_all_iff .
  have s: "\<forall>i. 0 \<le> i \<and> i \<le> 127 \<longrightarrow> chars test_font i = chars leak_font i"
    by (simp add: leak_font_def)
  then have s32: "chars test_font 32 = chars leak_font 32" by simp
  note fr = layout_indexes_table_unchecked
    [where ft_font = test_font and w = "Some 0" and t = "''ab c''" and mx = 15
       and d = test_font and width = 15 and ?f2.0 = leak_font]
  from fr r s have same: "font_limitSize test_font (Some 0) (Some ''ab c'') 15
     = font_limitSize leak_font (Some 0) (Some ''ab c'') 15 \<and>
   gl_printWidthRaw test_font (Some test_font) ''ab c''
     = gl_printWidthRaw test_font (Some leak_font) ''ab c'' \<and>
   gl_printWidthForText test_font (Some test_font) ''ab c'' 15
     = gl_printWidthForText test_font (Some leak_font) ''ab c'' 15"
    by blast
  show ?thesis
    using run sum2 raw ne plain le all w100 ov w8 m0 adv' idx' hi lo idxa l s32 same
    by blast
qed

text \<open>
  C4 as stated fails: for the text of the single byte 200 nothing rejects the call, and
  each operation computes with the entry at index -56. Two fonts with the same glyph
  table and different memory before it give different results.
\<close>

theorem out_of_range_byte_counterexample:
  "font_limitSize leak_font (Some 0) (Some [CHR 0xC8]) 100 = (1, Some 7) \<and>
   gl_printWidthRaw leak_font None [CHR 0xC8] = 7 \<and>
   gl_printWidthForText leak_font None [CHR 0xC8] 8 = 1 \<and>
   font_limitSize test_font (Some 0) (Some [CHR 0xC8]) 100 = (1, Some 10) \<and>
   gl_printWidthRaw test_font None [CHR 0xC8] = 10 \<and>
   gl_printWidthForText test_font None [CHR 0xC8] 8 = 0 \<and>
   char_index (CHR 0xC8) = - 56 \<and>
   adv_x (chars leak_font (- 56)) = 7 \<and>
   adv_x (chars test_font (- 56)) = 10"
  by code_simp

text \<open>
  C7. One step of the renderer. If the code point is the escape marker, the step returns
  the state number of \<open>AwaitingDirective\<close> and leaves the graphics state as it is. If
  not, and the mode is \<open>AwaitingDirective\<close>, the byte is consumed as a directive: r, g and
  b set the current colour to red, green and blue with the caller's alpha, 0 resets it
  to the caller's colour (white for none), any other byte leaves it; nothing is drawn,
  the pen stays, and the mode is \<open>Normal\<close> again. Otherwise the quad of the glyph is drawn
  (two triangles over its four vertices) at the pen position in the current colour, the
  pen advances by the glyph's \<open>(adv_x, adv_y)\<close>, and the mode stays \<open>Normal\<close>.
\<close>

theorem gl_fontRenderCharacter_step:
  "(ch = of_char ESC \<longrightarrow>
      gl_fontRenderCharacter pal font ch c state gl = (1, gl) \<and>
      mode_of (fst (gl_fontRenderCharacter pal font ch c state gl)) = AwaitingDirective) \<and>
   (ch \<noteq> of_char ESC \<and> mode_of state = AwaitingDirective \<longrightarrow>
      gl_fontRenderCharacter pal font ch c state gl =
        (0, gl\<lparr>colour :=
               (if ch = of_char (CHR ''r'')
                  then (cRed pal)\<lparr>alpha := (case c of None \<Rightarrow> 1 | Some col \<Rightarrow> alpha col)\<rparr>
                else if ch = of_char (CHR ''g'')
                  then (cGreen pal)\<lparr>alpha := (case c of None \<Rightarrow> 1 | Some col \<Rightarrow> alpha col)\<rparr>
                else if ch = of_char (CHR ''b'')
                  then (cBlue pal)\<lparr>alpha := (case c of None \<Rightarrow> 1 | Some col \<Rightarrow> alpha col)\<rparr>
                else if ch = of_char (CHR ''0'')
                  then (case c of None \<Rightarrow> white | Some col \<Rightarrow> col)
                else colour gl)\<rparr>) \<and>
      drawn (snd (gl_fontRenderCharacter pal font ch c state gl)) = drawn gl \<and>
      matrix (snd (gl_fontRenderCharacter pal font ch c state gl)) = matrix gl \<and>
      mode_of (fst (gl_fontRenderCharacter pal font ch c state gl)) = Normal) \<and>
   (ch \<noteq> of_char ESC \<and> mode_of state = Normal \<longrightarrow>
      gl_fontRenderCharacter pal font ch c state gl =
        (0, gl\<lparr>drawn := drawn gl @
                 [\<lparr>indices = map GLushort
                     [4 * ch, 4 * ch + 1, 4 * ch + 3, 4 * ch + 1, 4 * ch + 3, 4 * ch + 2],
                   drawn_at = matrix gl, drawn_in = colour gl\<rparr>],
               matrix := (fst (matrix gl) + of_int (adv_x (chars font ch)),
                          snd (matrix gl) + of_int (adv_y (chars font ch)))\<rparr>) \<and>
      mode_of (fst (gl_fontRenderCharacter pal font ch c state gl)) = Normal)"
proof (intro conjI impI)
  assume "ch = of_char ESC"
  then show "gl_fontRenderCharacter pal font ch c state gl = (1, gl)"
    and "mode_of (fst (gl_fontRenderCharacter pal font ch c state gl)) = AwaitingDirective"
    by (simp_all add: gl_fontRenderCharacter_def mode_of_def)
next
  assume a: "ch \<noteq> of_char ESC \<and> mode_of state = AwaitingDirective"
  then have st: "state = 1" by (simp add: mode_of_def split: if_splits)
  show dir: "gl_fontRenderCharacter pal font ch c state gl =
        (0, gl\<lparr>colour :=
               (if ch = of_char (CHR ''r'')
                  then (cRed pal)\<lparr>alpha := (case c of None \<Rightarrow> 1 | Some col \<Rightarrow> alpha col)\<rparr>
                else if ch = of_char (CHR ''g'')
                  then (cGreen pal)\<lparr>alpha := (case c of None \<Rightarrow> 1 | Some col \<Rightarrow> alpha col)\<rparr>
                else if ch = of_char (CHR ''b'')
                  then (cBlue pal)\<lparr>alpha := (case c of None \<Rightarrow> 1 | Some col \<Rightarrow> alpha col)\<rparr>
                else if ch = of_char (CHR ''0'')
                  then (case c of None \<Rightarrow> white | Some col \<Rightarrow> col)
                else colour gl)\<rparr>)"
    using a st
    by (cases c)
       (simp_all add: gl_fontRenderCharacter_def ACOLOUR_def COLOUR_def glColor4d_def white_def)
  show "drawn (snd (gl_fontRenderCharacter pal font ch c state gl)) = drawn gl"
    and "matrix (snd (gl_fontRenderCharacter pal font ch c state gl)) = matrix gl"
    and "mode_of (fst (gl_fontRenderCharacter pal font ch c state gl)) = Normal"
    unfolding dir by (simp_all add: mode_of_def)
next
  assume a: "ch \<noteq> of_char ESC \<and> mode_of state = Normal"
  then have st: "state \<noteq> 1" by (simp add: mode_of_def split: if_splits)
  show glyph: "gl_fontRenderCharacter pal font ch c state gl =
        (0, gl\<lparr>drawn := drawn gl @
                 [\<lparr>indices = map GLushort
                     [4 * ch, 4 * ch + 1, 4 * ch + 3, 4 * ch + 1, 4 * ch + 3, 4 * ch + 2],
                   drawn_at = matrix gl, drawn_in = colour gl\<rparr>],
               matrix := (fst (matrix gl) + of_int (adv_x (chars font ch)),
                          snd (matrix gl) + of_int (adv_y (chars font ch)))\<rparr>)"
    using a st
    by (simp add: gl_fontRenderCharacter_def glDrawElements_def gl_matrixTranslate_def)
  show "mode_of (fst (gl_fontRenderCharacter pal font ch c state gl)) = Normal"
    unfolding glyph by (simp add: mode_of_def)
qed

theorem gl_fontRenderCharacter_step_witness:
  "(27::int) = of_char ESC \<and>
   gl_fontRenderCharacter test_palette test_font 27 None 0 gl_init = (1, gl_init) \<and>
   (114::int) \<noteq> of_char ESC \<and> mode_of 1 = AwaitingDirective \<and>
   gl_fontRenderCharacter test_palette test_font 114 None 1 gl_init =
     (0, gl_init\<lparr>colour := \<lparr>red = 1, green = 0, blue = 0, alpha = 1\<rparr>\<rparr>) \<and>
   (97::int) \<noteq> of_char ESC \<and> mode_of 0 = Normal \<and>
   gl_fontRenderCharacter test_palette test_font 97 None 0 gl_init =
     (0, gl_init\<lparr>drawn := [\<lparr>indices = [388, 389, 391, 389, 391, 390], drawn_at = (0, 0),
                              drawn_in = white\<rparr>],
                  matrix := (10, 0)\<rparr>)"
proof -
  have e: "(27::int) = of_char ESC" by simp
  have d: "(114::int) \<noteq> of_char ESC \<and> mode_of 1 = AwaitingDirective"
    by (simp add: mode_of_def)
  have g: "(97::int) \<noteq> of_char ESC \<and> mode_of 0 = Normal"
    by (simp add: mode_of_def)
  note esc = gl_fontRenderCharacter_step [of 27 test_palette test_font None 0 gl_init,
      THEN conjunct1, THEN mp, OF e, THEN conjunct1]
  note dir0 = gl_fontRenderCharacter_step [of 114 test_palette test_font None 1 gl_init,
      THEN conjunct2, THEN conjunct1, THEN mp, OF d, THEN conjunct1]
  note glyph0 = gl_fontRenderCharacter_step [of 97 test_palette test_font None 0 gl_init,
      THEN conjunct2, THEN conjunct2, THEN mp, OF g, THEN conjunct1]
  from dir0 have dir: "gl_fontRenderCharacter test_palette test_font 114 None 1 gl_init =
     (0, gl_init\<lparr>colour := \<lparr>red = 1, green = 0, blue = 0, alpha = 1\<rparr>\<rparr>)"
    by (simp add: test_palette_def)
  from glyph0 have glyph: "gl_fontRenderCharacter test_palette test_font 97 None 0 gl_init =
     (0, gl_init\<lparr>drawn := [\<lparr>indices = [388, 389, 391, 389, 391, 390], drawn_at = (0, 0),
                              drawn_in = white\<rparr>],
                  matrix := (10, 0)\<rparr>)"
    by (simp add: test_font_def gl_init_def GLushort_def white_def)
  show ?thesis
    using e d g esc dir glyph by (intro conjI) simp_all
qed

text \<open>
  C1 (failing input). With advance 10 per letter and the budget 15, the text "abc" of
  three bytes is cut to one drawn glyph: two characters are suppressed, and both
  \<^verbatim>\<open>gl_printMaxRaw\<close> and \<^verbatim>\<open>gl_printMidRaw\<close> return 0.
\<close>

theorem print_return_failing_input:
  "strlen ''abc'' = 3 \<and>
   length (drawn (snd (gl_printMaxRaw test_screen test_palette test_font 0 None 15 400 300 None
      (Some ''abc'') gl_init))) = 1 \<and>
   fst (gl_printMaxRaw test_screen test_palette test_font 0 None 15 400 300 None
      (Some ''abc'') gl_init) = 0 \<and>
   length (drawn (snd (gl_printMidRaw test_screen test_palette test_font 0 0 None 15 400 300 None
      (Some ''abc'') gl_init))) = 1 \<and>
   fst (gl_printMidRaw test_screen test_palette test_font 0 0 None 15 400 300 None
      (Some ''abc'') gl_init) = 0"
  by code_simp

text \<open>
  C8 (failing input). For 128 glyphs of total width 11 and maximal height 3 the row
  estimate is \<open>ceil (sqrt (11 / 3)) = 2\<close> and the claim's initial width is
  \<open>ceil (11 / 2) + 1 = 7\<close>. The code divides the two \<^verbatim>\<open>int\<close>s first and gets the width
  \<open>11 div 2 + 1 = 6\<close>, with which the test fit needs a third row and grows the height
  from 7 to 10.
\<close>

theorem atlas_width_failing_input:
  "length test_glyphs = 128 \<and>
   atlas_totals test_glyphs = (11, 66, 33, 3) \<and>
   \<lceil>sqrt (real_of_int 11 / real_of_int 3)\<rceil> = 2 \<and>
   \<lceil>real_of_int 11 / real_of_int 2\<rceil> + 1 = 7 \<and>
   font_genTextureAtlas_size False gl_pot test_glyphs = Some (2, 6, 10)"
proof -
  have n: "atlas_rows 11 3 = Some 2" by code_simp
  have "atlas_rows 11 3 = Some \<lceil>sqrt (real_of_int 11 / real_of_int 3)\<rceil>"
    by (rule atlas_rows_ceil_sqrt) simp_all
  with n have root: "\<lceil>sqrt (real_of_int 11 / real_of_int 3)\<rceil> = 2" by simp
  have len: "length test_glyphs = 128" by (simp add: test_glyphs_def)
  have tot: "atlas_totals test_glyphs = (11, 66, 33, 3)" by code_simp
  have size: "font_genTextureAtlas_size False gl_pot test_glyphs = Some (2, 6, 10)" by code_simp
  have "\<lceil>real_of_int 11 / real_of_int 2\<rceil> + 1 = 7" by simp
  with len tot root size show ?thesis by simp
qed

end
